theory Spec2Isabelle
  imports
    Complex_Main
    "HOL-Library.Char_ord"
    "HOL-Library.List_Lexorder"
    "HOL-Library.Product_Lexorder"
    "HOL-Library.Multiset"
begin

section \<open>Python values and exceptions\<close>

text \<open>
  The program is the single file \<^verbatim>\<open>3dssmb.py\<close>: an interactive shell over an SMB
  connection. Exceptions of the source are values of \<open>error\<close>; a function that may raise
  returns \<open>error + 'a\<close> with \<open>Inl\<close> for the exception.
\<close>

datatype error =
    ValueError
  | TypeError
  | OverflowError
  | EOFError
  | NameError
  | AttributeError
  | OSError
  | OperationFailure string
  | ConnectionError string

text \<open>Python's \<^verbatim>\<open>str(n)\<close> for a non-negative integer: its decimal digits.\<close>

definition digit_char :: "nat \<Rightarrow> char" where
  "digit_char d = ''0123456789'' ! d"

function str_of_nat :: "nat \<Rightarrow> string" where
  "str_of_nat n =
     (if n < 10 then [digit_char n] else str_of_nat (n div 10) @ [digit_char (n mod 10)])"
  by pat_completeness auto
termination
  by (relation "measure id") auto

declare str_of_nat.simps [simp del]

text \<open>\<^verbatim>\<open>s.rjust(w)\<close>, which is what the format fields \<^verbatim>\<open>%3.1f\<close> and \<^verbatim>\<open>{:>{w}}\<close> do
  with a text shorter than the field width.\<close>

definition rjust :: "nat \<Rightarrow> string \<Rightarrow> string" where
  "rjust w s = replicate (w - length s) CHR '' '' @ s"

section \<open>\<^verbatim>\<open>format_size\<close>\<close>

text \<open>
  \<^verbatim>\<open>
  def format_size(num, suffix="B"):
      for unit in ["", "Ki", "Mi", "Gi", "Ti", "Pi", "Ei", "Zi"]:
          if abs(num) < 1024.0:
              return "%3.1f%s%s" % (num, unit, suffix)
          num /= 1024.0
  \<close>
  \<open>num\<close> starts as a Python \<open>int\<close> and becomes a \<open>float\<close> at the first division. The
  division \<^verbatim>\<open>int / float\<close> first converts the integer to the nearest double (53
  significant bits, ties to even) and raises \<^verbatim>\<open>OverflowError\<close> when that double would be
  \<open>2 ^ 1024\<close> or more. Every later division is of a double of magnitude at least 1024 by
  the power of two 1024, which is exact. So every float of this function is
  \<open>m / 1024 ^ k\<close> for an integer \<open>m\<close>, and the model holds it as \<open>PyFloat m k\<close>: no
  rounding is lost. The comparison \<^verbatim>\<open>abs(num) < 1024.0\<close> is exact in Python for integers
  and for floats.
\<close>

datatype pynum = PyInt int | PyFloat int nat

text \<open>The numerator and the denominator of the value a \<open>pynum\<close> denotes.\<close>

fun numer :: "pynum \<Rightarrow> int" where
  "numer (PyInt n) = n"
| "numer (PyFloat m k) = m"

fun denom :: "pynum \<Rightarrow> int" where
  "denom (PyInt n) = 1"
| "denom (PyFloat m k) = 1024 ^ k"

definition num_val :: "pynum \<Rightarrow> rat" where
  "num_val num = of_int (numer num) / of_int (denom num)"

function bit_length :: "nat \<Rightarrow> nat" where
  "bit_length n = (if n = 0 then 0 else Suc (bit_length (n div 2)))"
  by pat_completeness auto
termination
  by (relation "measure id") auto

declare bit_length.simps [simp del]

text \<open>The integer nearest to \<open>a / d\<close> for \<open>d > 0\<close>, a tie going to the even one.\<close>

definition round_half_even :: "int \<Rightarrow> int \<Rightarrow> int" where
  "round_half_even a d =
     (let q = a div d; r = a mod d
      in if d < 2 * r \<or> (2 * r = d \<and> odd q) then q + 1 else q)"

text \<open>The conversion of a Python \<open>int\<close> to \<open>float\<close>: the double nearest to \<open>n\<close>
  (the magnitude rounded to 53 significant bits), itself an integer, or
  \<^verbatim>\<open>OverflowError\<close>.\<close>

definition nearest_double :: "int \<Rightarrow> int" where
  "nearest_double a =
     (let e = bit_length (nat a) - 53 in round_half_even a (2 ^ e) * 2 ^ e)"

definition float_of_int :: "int \<Rightarrow> error + int" where
  "float_of_int n =
     (let m = nearest_double \<bar>n\<bar>
      in if 2 ^ 1024 \<le> m then Inl OverflowError else Inr (sgn n * m))"

text \<open>\<^verbatim>\<open>num /= 1024.0\<close>\<close>

fun div_1024 :: "pynum \<Rightarrow> error + pynum" where
  "div_1024 (PyInt n) =
     (case float_of_int n of Inl e \<Rightarrow> Inl e | Inr m \<Rightarrow> Inr (PyFloat m 1))"
| "div_1024 (PyFloat m k) = Inr (PyFloat m (Suc k))"

text \<open>\<^verbatim>\<open>abs(num) < 1024.0\<close>\<close>

definition abs_lt_1024 :: "pynum \<Rightarrow> bool" where
  "abs_lt_1024 num \<longleftrightarrow> \<bar>numer num\<bar> < 1024 * denom num"

text \<open>\<^verbatim>\<open>"%3.1f" % num\<close>: the value correctly rounded to one decimal (ties to even, as
  CPython's float formatting does), with a minus sign for a negative value and padded on
  the left to three characters. \<open>tenths\<close> is the rounded magnitude in tenths.\<close>

definition tenths :: "pynum \<Rightarrow> nat" where
  "tenths num = nat (round_half_even (10 * \<bar>numer num\<bar>) (denom num))"

definition fmt_3_1f :: "pynum \<Rightarrow> string" where
  "fmt_3_1f num =
     rjust 3 ((if numer num < 0 then ''-'' else '''')
              @ str_of_nat (tenths num div 10) @ ''.'' @ str_of_nat (tenths num mod 10))"

definition units :: "string list" where
  "units = ['''', ''Ki'', ''Mi'', ''Gi'', ''Ti'', ''Pi'', ''Ei'', ''Zi'']"

text \<open>The \<^verbatim>\<open>for\<close> loop over the units; falling off its end returns \<^verbatim>\<open>None\<close>.\<close>

fun format_size_loop :: "pynum \<Rightarrow> string list \<Rightarrow> string \<Rightarrow> error + string option" where
  "format_size_loop num [] suffix = Inr None"
| "format_size_loop num (unit # us) suffix =
     (if abs_lt_1024 num then Inr (Some (fmt_3_1f num @ unit @ suffix))
      else (case div_1024 num of
              Inl e \<Rightarrow> Inl e
            | Inr num' \<Rightarrow> format_size_loop num' us suffix))"

definition format_size :: "int \<Rightarrow> string \<Rightarrow> error + string option" where
  "format_size num suffix = format_size_loop (PyInt num) units suffix"

section \<open>\<^verbatim>\<open>print_filelist\<close>\<close>

text \<open>
  \<^verbatim>\<open>
  def print_filelist(filelist):
      # Sort directories first and by file name
      filelist.sort(key=lambda f: (not f[1], f[0].lower()))
      max_sizelen = max(len(f[2]) for f in filelist)

      for filename, isdir, size in filelist:
          if filename in (".", ".."):
              continue
          print("{:>{w}} {}".format(size, filename, w=max_sizelen))
  \<close>
  An entry is the tuple \<open>(filename, isdir, size)\<close> that \<^verbatim>\<open>do_ls\<close> and \<^verbatim>\<open>do_lls\<close> build;
  \<open>size\<close> is the text \<^verbatim>\<open>"-"\<close> or what \<^verbatim>\<open>format_size\<close> returned, which may be \<^verbatim>\<open>None\<close>.
  Texts are lists of the characters of \<open>string\<close>, each read as the code point of that
  number (the code points below 256), and compared character by character as Python
  compares code points. \<^verbatim>\<open>str.lower\<close> is its action on these code points: the upper-case
  letters, A to Z and U+00C0 to U+00DE but the multiplication sign U+00D7, go to the
  letter 32 code points above, and every other character stays.
\<close>

type_synonym fileentry = "string \<times> bool \<times> string option"

definition upper_letters :: string where
  "upper_letters = ''ABCDEFGHIJKLMNOPQRSTUVWXYZ'' @
     [CHR 0xC0, CHR 0xC1, CHR 0xC2, CHR 0xC3, CHR 0xC4, CHR 0xC5, CHR 0xC6, CHR 0xC7,
      CHR 0xC8, CHR 0xC9, CHR 0xCA, CHR 0xCB, CHR 0xCC, CHR 0xCD, CHR 0xCE, CHR 0xCF,
      CHR 0xD0, CHR 0xD1, CHR 0xD2, CHR 0xD3, CHR 0xD4, CHR 0xD5, CHR 0xD6,
      CHR 0xD8, CHR 0xD9, CHR 0xDA, CHR 0xDB, CHR 0xDC, CHR 0xDD, CHR 0xDE]"

definition lower_letters :: string where
  "lower_letters = ''abcdefghijklmnopqrstuvwxyz'' @
     [CHR 0xE0, CHR 0xE1, CHR 0xE2, CHR 0xE3, CHR 0xE4, CHR 0xE5, CHR 0xE6, CHR 0xE7,
      CHR 0xE8, CHR 0xE9, CHR 0xEA, CHR 0xEB, CHR 0xEC, CHR 0xED, CHR 0xEE, CHR 0xEF,
      CHR 0xF0, CHR 0xF1, CHR 0xF2, CHR 0xF3, CHR 0xF4, CHR 0xF5, CHR 0xF6,
      CHR 0xF8, CHR 0xF9, CHR 0xFA, CHR 0xFB, CHR 0xFC, CHR 0xFD, CHR 0xFE]"

definition lower_char :: "char \<Rightarrow> char" where
  "lower_char c =
     (case map_of (zip upper_letters lower_letters) c of None \<Rightarrow> c | Some l \<Rightarrow> l)"

definition str_lower :: "string \<Rightarrow> string" where
  "str_lower s = map lower_char s"

text \<open>The sort key \<^verbatim>\<open>(not f[1], f[0].lower())\<close>; tuples compare lexicographically and
  \<^verbatim>\<open>False < True\<close>.\<close>

definition sort_key_of :: "fileentry \<Rightarrow> bool \<times> string" where
  "sort_key_of f = (\<not> fst (snd f), str_lower (fst f))"

text \<open>\<^verbatim>\<open>len(f[2]) for f in filelist\<close>: \<^verbatim>\<open>len(None)\<close> raises \<^verbatim>\<open>TypeError\<close>.\<close>

fun size_lens :: "fileentry list \<Rightarrow> error + nat list" where
  "size_lens [] = Inr []"
| "size_lens (f # fs) =
     (case snd (snd f) of
        None \<Rightarrow> Inl TypeError
      | Some s \<Rightarrow> (case size_lens fs of Inl e \<Rightarrow> Inl e | Inr ls \<Rightarrow> Inr (length s # ls)))"

text \<open>\<^verbatim>\<open>max(...)\<close>: \<^verbatim>\<open>ValueError\<close> on an empty sequence.\<close>

definition max_sizelen :: "fileentry list \<Rightarrow> error + nat" where
  "max_sizelen filelist =
     (case size_lens filelist of
        Inl e \<Rightarrow> Inl e
      | Inr [] \<Rightarrow> Inl ValueError
      | Inr (l # ls) \<Rightarrow> Inr (fold max ls l))"

text \<open>The printing loop; the result is the list of the lines printed.\<close>

fun print_rows :: "nat \<Rightarrow> fileentry list \<Rightarrow> error + string list" where
  "print_rows w [] = Inr []"
| "print_rows w ((fname, isdir, sz) # fs) =
     (if fname \<in> {''.'', ''..''} then print_rows w fs
      else (case sz of
              None \<Rightarrow> Inl TypeError
            | Some s \<Rightarrow>
                (case print_rows w fs of
                   Inl e \<Rightarrow> Inl e
                 | Inr rows \<Rightarrow> Inr ((rjust w s @ '' '' @ fname) # rows))))"

definition print_filelist :: "fileentry list \<Rightarrow> error + string list" where
  "print_filelist filelist =
     (let filelist' = sort_key sort_key_of filelist
      in case max_sizelen filelist' of
           Inl e \<Rightarrow> Inl e
         | Inr w \<Rightarrow> print_rows w filelist')"

text \<open>
  The entries \<^verbatim>\<open>do_ls\<close> builds from the answer of \<^verbatim>\<open>listPath\<close>:
  \<^verbatim>\<open>
  filelist = []
  for sf in resp:
      if sf.isDirectory:
          filelist.append((sf.filename, True, "-"))
      else:
          filelist.append((sf.filename, False, format_size(sf.file_size)))
  \<close>
\<close>

record shared_file =
  filename :: string
  isDirectory :: bool
  file_size :: int

fun build_filelist :: "shared_file list \<Rightarrow> error + fileentry list" where
  "build_filelist [] = Inr []"
| "build_filelist (sf # resp) =
     (case (if isDirectory sf then Inr (Some ''-'') else format_size (file_size sf) ''B'') of
        Inl e \<Rightarrow> Inl e
      | Inr sz \<Rightarrow>
          (case build_filelist resp of
             Inl e \<Rightarrow> Inl e
           | Inr filelist \<Rightarrow> Inr ((filename sf, isDirectory sf, sz) # filelist)))"

definition list_and_print :: "shared_file list \<Rightarrow> error + string list" where
  "list_and_print resp =
     (case build_filelist resp of Inl e \<Rightarrow> Inl e | Inr filelist \<Rightarrow> print_filelist filelist)"

section \<open>Remote paths: \<^verbatim>\<open>ntpath\<close>\<close>

text \<open>
  Remote paths are joined and normalised by the module \<^verbatim>\<open>ntpath\<close> of Python's standard
  library, whatever the platform. The functions below follow its pure-Python source as of
  CPython 3.11 (\<^verbatim>\<open>splitdrive\<close>, \<^verbatim>\<open>join\<close>, \<^verbatim>\<open>normpath\<close>, \<^verbatim>\<open>split\<close>, \<^verbatim>\<open>basename\<close>) on
  \<open>str\<close> arguments. \<^verbatim>\<open>str.lower\<close> is \<open>str_lower\<close> above. \<^verbatim>\<open>str.upper\<close> is only
  used to compare the first eight characters of a path with the text \<^verbatim>\<open>\\?\UNC\\<close>; it
  takes the lower-case letters to the letter 32 code points below, and the three letters
  whose upper case is not a code point below 256 (U+00B5, U+00DF, U+00FF) are kept, which
  leaves the outcome of that comparison as it is.
\<close>

abbreviation sep :: char where
  "sep \<equiv> CHR 0x5C"

abbreviation altsep :: char where
  "altsep \<equiv> CHR ''/''"

abbreviation colon :: char where
  "colon \<equiv> CHR '':''"

definition seps :: "char set" where
  "seps = {sep, altsep}"

definition upper_char :: "char \<Rightarrow> char" where
  "upper_char c =
     (case map_of (zip lower_letters upper_letters) c of None \<Rightarrow> c | Some u \<Rightarrow> u)"

definition str_upper :: "string \<Rightarrow> string" where
  "str_upper s = map upper_char s"

text \<open>\<^verbatim>\<open>p.replace(altsep, sep)\<close>\<close>

definition replace_altsep :: "string \<Rightarrow> string" where
  "replace_altsep p = map (\<lambda>c. if c = altsep then sep else c) p"

text \<open>\<^verbatim>\<open>s.find(sep, start)\<close>, with \<open>None\<close> for \<open>-1\<close>.\<close>

definition find_sep :: "string \<Rightarrow> nat \<Rightarrow> nat option" where
  "find_sep s start =
     (let r = drop start s
      in if sep \<in> set r then Some (start + length (takeWhile (\<lambda>c. c \<noteq> sep) r)) else None)"

definition unc_prefix :: string where
  "unc_prefix = [sep, sep, CHR ''?'', sep, CHR ''U'', CHR ''N'', CHR ''C'', sep]"

text \<open>
  \<^verbatim>\<open>
  def splitdrive(p):
      if len(p) >= 2:
          normp = p.replace(altsep, sep)
          if normp[0:2] == sep * 2:
              start = 8 if normp[:8].upper() == unc_prefix else 2
              index = normp.find(sep, start)
              if index == -1:
                  return p, p[:0]
              index2 = normp.find(sep, index + 1)
              if index2 == -1:
                  return p, p[:0]
              return p[:index2], p[index2:]
          if normp[1:2] == colon:
              return p[:2], p[2:]
      return p[:0], p
  \<close>
\<close>

definition splitdrive :: "string \<Rightarrow> string \<times> string" where
  "splitdrive p =
     (if 2 \<le> length p then
        (let normp = replace_altsep p
         in if take 2 normp = [sep, sep] then
              (let start = (if str_upper (take 8 normp) = unc_prefix then 8 else 2)
               in case find_sep normp start of
                    None \<Rightarrow> (p, [])
                  | Some index \<Rightarrow>
                      (case find_sep normp (index + 1) of
                         None \<Rightarrow> (p, [])
                       | Some index2 \<Rightarrow> (take index2 p, drop index2 p)))
            else if take 1 (drop 1 normp) = [colon] then (take 2 p, drop 2 p)
            else ([], p))
      else ([], p))"

text \<open>
  \<^verbatim>\<open>
  def join(path, *paths):
      result_drive, result_path = splitdrive(path)
      for p in paths:
          p_drive, p_path = splitdrive(p)
          if p_path and p_path[0] in seps:
              # Second path is absolute
              if p_drive or not result_drive:
                  result_drive = p_drive
              result_path = p_path
              continue
          elif p_drive and p_drive != result_drive:
              if p_drive.lower() != result_drive.lower():
                  # Different drives => ignore the first path entirely
                  result_drive = p_drive
                  result_path = p_path
                  continue
              # Same drive in different case
              result_drive = p_drive
          # Second path is relative to the first
          if result_path and result_path[-1] not in seps:
              result_path = result_path + sep
          result_path = result_path + p_path
      ## add separator between UNC and non-absolute path
      if (result_path and result_path[0] not in seps and
          result_drive and result_drive[-1:] != colon):
          return result_drive + sep + result_path
      return result_drive + result_path
  \<close>
  \<open>join_step\<close> is one turn of the loop on the pair \<open>(result_drive, result_path)\<close>.
\<close>

definition join_relative :: "string \<Rightarrow> string \<Rightarrow> string" where
  "join_relative result_path p_path =
     (if result_path \<noteq> [] \<and> last result_path \<notin> seps then result_path @ [sep] @ p_path
      else result_path @ p_path)"

definition join_step :: "string \<Rightarrow> string \<times> string \<Rightarrow> string \<times> string" where
  "join_step p res =
     (let result_drive = fst res; result_path = snd res;
          p_drive = fst (splitdrive p); p_path = snd (splitdrive p)
      in if p_path \<noteq> [] \<and> hd p_path \<in> seps then
           (if p_drive \<noteq> [] \<or> result_drive = [] then p_drive else result_drive, p_path)
         else if p_drive \<noteq> [] \<and> p_drive \<noteq> result_drive then
           (if str_lower p_drive \<noteq> str_lower result_drive then (p_drive, p_path)
            else (p_drive, join_relative result_path p_path))
         else (result_drive, join_relative result_path p_path))"

definition join :: "string \<Rightarrow> string list \<Rightarrow> string" where
  "join path paths =
     (let res = fold join_step paths (splitdrive path);
          result_drive = fst res; result_path = snd res
      in if result_path \<noteq> [] \<and> hd result_path \<notin> seps \<and>
            result_drive \<noteq> [] \<and> last result_drive \<noteq> colon
         then result_drive @ [sep] @ result_path
         else result_drive @ result_path)"

text \<open>\<^verbatim>\<open>path.split(sep)\<close> and \<^verbatim>\<open>sep.join(comps)\<close>\<close>

fun str_split :: "string \<Rightarrow> string list" where
  "str_split [] = [[]]"
| "str_split (c # cs) =
     (if c = sep then [] # str_split cs
      else (case str_split cs of [] \<Rightarrow> [[c]] | w # ws \<Rightarrow> (c # w) # ws))"

fun str_join :: "string list \<Rightarrow> string" where
  "str_join [] = []"
| "str_join [x] = x"
| "str_join (x # y # ys) = x @ sep # str_join (y # ys)"

text \<open>
  \<^verbatim>\<open>
  def normpath(path):
      path = path.replace(altsep, sep)
      prefix, path = splitdrive(path)
      # collapse initial backslashes
      if path.startswith(sep):
          prefix += sep
          path = path.lstrip(sep)
      comps = path.split(sep)
      i = 0
      while i < len(comps):
          if not comps[i] or comps[i] == curdir:
              del comps[i]
          elif comps[i] == pardir:
              if i > 0 and comps[i-1] != pardir:
                  del comps[i-1:i+1]
                  i -= 1
              elif i == 0 and prefix.endswith(sep):
                  del comps[i]
              else:
                  i += 1
          else:
              i += 1
      # If the path is now empty, substitute '.'
      if not prefix and not comps:
          comps.append(curdir)
      return prefix + sep.join(comps)
  \<close>
\<close>

definition endswith_sep :: "string \<Rightarrow> bool" where
  "endswith_sep s \<longleftrightarrow> s \<noteq> [] \<and> last s = sep"

function normpath_loop :: "string \<Rightarrow> string list \<Rightarrow> nat \<Rightarrow> string list" where
  "normpath_loop prefix comps i =
     (if i < length comps then
        (if comps ! i = [] \<or> comps ! i = ''.'' then
           normpath_loop prefix (take i comps @ drop (Suc i) comps) i
         else if comps ! i = ''..'' then
           (if 0 < i \<and> comps ! (i - 1) \<noteq> ''..'' then
              normpath_loop prefix (take (i - 1) comps @ drop (Suc i) comps) (i - 1)
            else if i = 0 \<and> endswith_sep prefix then
              normpath_loop prefix (take i comps @ drop (Suc i) comps) i
            else normpath_loop prefix comps (Suc i))
         else normpath_loop prefix comps (Suc i))
      else comps)"
  by pat_completeness auto
termination
  by (relation "measure (\<lambda>(prefix, comps, i). 2 * length comps - i)") auto

declare normpath_loop.simps [simp del]

definition normpath :: "string \<Rightarrow> string" where
  "normpath path =
     (let path1 = replace_altsep path;
          prefix = fst (splitdrive path1); path2 = snd (splitdrive path1);
          prefix' = (if path2 \<noteq> [] \<and> hd path2 = sep then prefix @ [sep] else prefix);
          path3 = (if path2 \<noteq> [] \<and> hd path2 = sep then dropWhile (\<lambda>c. c = sep) path2 else path2);
          comps = normpath_loop prefix' (str_split path3) 0;
          comps' = (if prefix' = [] \<and> comps = [] then [''.''] else comps)
      in prefix' @ str_join comps')"

text \<open>
  \<^verbatim>\<open>basename(p)\<close> is \<^verbatim>\<open>split(p)[1]\<close>: what follows the last separator of the path without
  its drive.
\<close>

definition basename :: "string \<Rightarrow> string" where
  "basename p = rev (takeWhile (\<lambda>c. c \<notin> seps) (rev (snd (splitdrive p))))"

section \<open>The shell: \<^verbatim>\<open>ClientCmd\<close>\<close>

subsection \<open>The world outside the program\<close>

text \<open>
  Everything the program does to the outside is recorded, in order, in a trace of
  events: what it prints, what it asks the user, the calls it makes on the name
  service and on the SMB connection objects (each connection object has a number, in the
  order of creation), and what it does to local files. The answers of the outside (the
  user, the network, the server, the local file system) are not fixed by the program:
  they are the fields of an environment \<open>env\<close>, each a function of the trace so far, so
  that an answer may depend on everything that happened before.
\<close>

datatype request =
    ListPath string string
  | CreateDirectory string string
  | DeleteFiles string string
  | DeleteDirectory string string
  | Rename string string string
  | RetrieveFile string string
  | StoreFile string string

datatype event =
    Print string
  | Input string
  | GetPass
  | QueryName string
  | NewConnection nat string string string
  | Connect nat string int
  | Close nat
  | Call nat request
  | OpenWrite string
  | OpenRead string
  | CloseFile string
  | ListDir string
  | ChDir string
  | Info nat
  | Help string

record env =
  input_line :: "event list \<Rightarrow> string option"
  getpass_line :: "event list \<Rightarrow> string option"
  queryName :: "event list \<Rightarrow> string \<Rightarrow> string list option"
  connect_result :: "event list \<Rightarrow> nat \<Rightarrow> string \<Rightarrow> int \<Rightarrow> error + bool"
  listPath :: "event list \<Rightarrow> nat \<Rightarrow> string \<Rightarrow> string \<Rightarrow> error + shared_file list"
  retrieveFile :: "event list \<Rightarrow> nat \<Rightarrow> string \<Rightarrow> string \<Rightarrow> nat list \<times> error option"
  call_result :: "event list \<Rightarrow> nat \<Rightarrow> request \<Rightarrow> error option"
  open_result :: "event list \<Rightarrow> string \<Rightarrow> error option"
  listdir :: "event list \<Rightarrow> string \<Rightarrow> error + (string \<times> bool \<times> int) list"
  chdir_result :: "event list \<Rightarrow> string \<Rightarrow> error option"
  getcwd :: "event list \<Rightarrow> string"
  lpath_for :: "event list \<Rightarrow> string \<Rightarrow> string"
  local_basename :: "string \<Rightarrow> string"

text \<open>
  \<open>input_line\<close> and \<open>getpass_line\<close> are the line typed at \<^verbatim>\<open>input\<close> and
  \<^verbatim>\<open>getpass.getpass\<close> (\<open>None\<close> at end of input, which raises \<^verbatim>\<open>EOFError\<close>);
  \<open>queryName\<close> is the answer of \<^verbatim>\<open>NetBIOS.queryName\<close>, \<open>None\<close> on a timeout;
  \<open>connect_result\<close> is what \<^verbatim>\<open>SMBConnection.connect\<close> does: raise, or return whether
  the server accepted the credentials; \<open>retrieveFile\<close> gives the bytes the library writes
  to the file object and the exception it then raises, if any; \<open>lpath_for\<close> is
  \<^verbatim>\<open>os.path.join(os.getcwd(), os.path.expanduser(path))\<close> and \<open>local_basename\<close> is
  \<^verbatim>\<open>os.path.basename\<close>, both of the platform the shell runs on.

  The state is the three attributes of the \<^verbatim>\<open>ClientCmd\<close> object (\<open>service\<close> and
  \<open>cur_dir\<close> do not exist before \<^verbatim>\<open>_connect\<close> has set them), the trace, the contents of
  the local files, the connection objects whose socket is open, and the number of the
  next connection object.
\<close>

record state =
  conn :: "nat option"
  service :: "string option"
  cur_dir :: "string option"
  trace :: "event list"
  files :: "string \<Rightarrow> nat list option"
  live :: "nat set"
  next_conn :: nat

definition init_state :: "(string \<Rightarrow> nat list option) \<Rightarrow> state" where
  "init_state fs =
     \<lparr>conn = None, service = None, cur_dir = None, trace = [], files = fs, live = {},
      next_conn = 0\<rparr>"

definition emit :: "event \<Rightarrow> state \<Rightarrow> state" where
  "emit ev s = s\<lparr>trace := trace s @ [ev]\<rparr>"

text \<open>A statement that may raise: the exception or the value, and the state it leaves.\<close>

type_synonym 'a action = "state \<Rightarrow> (error + 'a) \<times> state"

definition and_then :: "'a action \<Rightarrow> ('a \<Rightarrow> 'b action) \<Rightarrow> 'b action" where
  "and_then m f s = (case m s of (Inl e, s') \<Rightarrow> (Inl e, s') | (Inr a, s') \<Rightarrow> f a s')"

definition return :: "'a \<Rightarrow> 'a action" where
  "return a s = (Inr a, s)"

definition raise :: "error \<Rightarrow> 'a action" where
  "raise e s = (Inl e, s)"

definition py_print :: "string \<Rightarrow> unit action" where
  "py_print line s = (Inr (), emit (Print line) s)"

definition py_input :: "env \<Rightarrow> string \<Rightarrow> string action" where
  "py_input env prompt s =
     (case input_line env (trace s) of
        None \<Rightarrow> (Inl EOFError, emit (Input prompt) s)
      | Some line \<Rightarrow> (Inr line, emit (Input prompt) s))"

definition py_getpass :: "env \<Rightarrow> string action" where
  "py_getpass env s =
     (case getpass_line env (trace s) of
        None \<Rightarrow> (Inl EOFError, emit GetPass s)
      | Some line \<Rightarrow> (Inr line, emit GetPass s))"

text \<open>Each of the following runs a loop body on every element, stopping at an exception.\<close>

fun for_each :: "('a \<Rightarrow> unit action) \<Rightarrow> 'a list \<Rightarrow> unit action" where
  "for_each body [] = return ()"
| "for_each body (x # xs) = and_then (body x) (\<lambda>_. for_each body xs)"

subsection \<open>\<^verbatim>\<open>complete_config\<close>\<close>

text \<open>
  \<^verbatim>\<open>
  DEFAULT_TIMEOUT = 5
  DEFAULT_PORT = 139
  DEFAULT_SERVICE = "microSD"

  def complete_config(config):
      if config["servername"] is None:
          config["servername"] = input("3DS Name: ")
      if config["username"] is None:
          config["username"] = input("Username: ")
      if config["password"] is None:
          config["password"] = getpass.getpass()
      if config["serverip"] is None:
          nb_conn = NetBIOS()
          query_ips = nb_conn.queryName(config["servername"],
              timeout=DEFAULT_TIMEOUT)
          nb_conn.close()
          if not query_ips or len(query_ips) > 1:
              print("[Error] Name resolution failed. "
                  "Please enter the 3DS IP manually.")
              config["serverip"] = input("IP: ")
          elif len(query_ips) == 1:
              config["serverip"] = query_ips[0]
      if config["serverport"] is None:
          config["serverport"] = DEFAULT_PORT
      if config["service"] is None:
          config["service"] = DEFAULT_SERVICE
      return config
  \<close>
  The dictionary built from the command line has the six keys, each possibly \<^verbatim>\<open>None\<close>:
  the record \<open>config\<close> (the key \<^verbatim>\<open>"service"\<close> is the field \<open>share\<close>). After
  \<^verbatim>\<open>complete_config\<close> every key has a value: the record \<open>full_config\<close>.
\<close>

record config =
  servername :: "string option"
  username :: "string option"
  password :: "string option"
  serverip :: "string option"
  serverport :: "int option"
  share :: "string option"

record full_config =
  fc_servername :: string
  fc_username :: string
  fc_password :: string
  fc_serverip :: string
  fc_serverport :: int
  fc_service :: string

definition DEFAULT_PORT :: int where
  "DEFAULT_PORT = 139"

definition DEFAULT_SERVICE :: string where
  "DEFAULT_SERVICE = ''microSD''"

definition or_else :: "'a option \<Rightarrow> 'a action \<Rightarrow> 'a action" where
  "or_else v ask = (case v of None \<Rightarrow> ask | Some a \<Rightarrow> return a)"

definition resolve_ip :: "env \<Rightarrow> string \<Rightarrow> string action" where
  "resolve_ip env name s =
     (let query_ips = queryName env (trace s) name;
          s1 = emit (QueryName name) s
      in case query_ips of
           Some [ip] \<Rightarrow> (Inr ip, s1)
         | _ \<Rightarrow>
             and_then
               (py_print ''[Error] Name resolution failed. Please enter the 3DS IP manually.'')
               (\<lambda>_. py_input env ''IP: '') s1)"

definition complete_config :: "env \<Rightarrow> config \<Rightarrow> full_config action" where
  "complete_config env config =
     and_then (or_else (servername config) (py_input env ''3DS Name: '')) (\<lambda>name.
     and_then (or_else (username config) (py_input env ''Username: '')) (\<lambda>user.
     and_then (or_else (password config) (py_getpass env)) (\<lambda>pw.
     and_then (or_else (serverip config) (resolve_ip env name)) (\<lambda>ip.
     return
       \<lparr>fc_servername = name, fc_username = user, fc_password = pw, fc_serverip = ip,
        fc_serverport = (case serverport config of None \<Rightarrow> DEFAULT_PORT | Some p \<Rightarrow> p),
        fc_service = (case share config of None \<Rightarrow> DEFAULT_SERVICE | Some sv \<Rightarrow> sv)\<rparr>))))"

subsection \<open>\<^verbatim>\<open>_connect\<close>, \<^verbatim>\<open>_path_for\<close>, \<^verbatim>\<open>_change_dir\<close>\<close>

text \<open>
  \<^verbatim>\<open>
  def _connect(self, config):
      if self.conn is not None:
          self.conn.close()

      complete_config(config)

      self.conn = SMBConnection(
          username=config["username"],
          password=config["password"],
          my_name=DEFAULT_CLIENTNAME,
          remote_name=config["servername"],
          domain="",
          use_ntlm_v2=True,
          is_direct_tcp=False)

      self.conn.connect(config["serverip"], config["serverport"],
          timeout=DEFAULT_TIMEOUT)

      self.service = config["service"]
      self.cur_dir = "\\"

      print("Connected to", config["serverip"])
  \<close>
  \<^verbatim>\<open>close\<close> closes the socket of the connection object, if it has one. \<^verbatim>\<open>connect\<close> opens
  a socket and returns the outcome of the authentication, which the code does not look
  at; when it raises, the object keeps no session.
\<close>

definition close_conn :: "nat \<Rightarrow> unit action" where
  "close_conn c s = (Inr (), emit (Close c) (s\<lparr>live := live s - {c}\<rparr>))"

definition new_connection :: "full_config \<Rightarrow> unit action" where
  "new_connection cfg s =
     (Inr (),
      emit (NewConnection (next_conn s) (fc_username cfg) (fc_password cfg) (fc_servername cfg))
        (s\<lparr>conn := Some (next_conn s), next_conn := Suc (next_conn s)\<rparr>))"

definition smb_connect :: "env \<Rightarrow> string \<Rightarrow> int \<Rightarrow> unit action" where
  "smb_connect env ip port s =
     (case conn s of
        None \<Rightarrow> (Inl AttributeError, s)
      | Some c \<Rightarrow>
          (case connect_result env (trace s) c ip port of
             Inl e \<Rightarrow> (Inl e, emit (Connect c ip port) s)
           | Inr authenticated \<Rightarrow>
               (Inr (), emit (Connect c ip port) (s\<lparr>live := insert c (live s)\<rparr>))))"

definition connect :: "env \<Rightarrow> config \<Rightarrow> unit action" where
  "connect env config =
     and_then (\<lambda>s. case conn s of None \<Rightarrow> return () s | Some c \<Rightarrow> close_conn c s) (\<lambda>_.
     and_then (complete_config env config) (\<lambda>cfg.
     and_then (new_connection cfg) (\<lambda>_.
     and_then (smb_connect env (fc_serverip cfg) (fc_serverport cfg)) (\<lambda>_.
     and_then (\<lambda>s. return () (s\<lparr>service := Some (fc_service cfg), cur_dir := Some [sep]\<rparr>)) (\<lambda>_.
     py_print (''Connected to '' @ fc_serverip cfg))))))"

text \<open>
  \<^verbatim>\<open>
  def __init__(self, config, completekey="tab", stdin=None, stdout=None):
      super().__init__(completekey, stdin, stdout)
      self.conn = None
      self._connect(config)
  \<close>
\<close>

definition client_init :: "env \<Rightarrow> config \<Rightarrow> (string \<Rightarrow> nat list option) \<Rightarrow> (error + unit) \<times> state" where
  "client_init env config fs = connect env config (init_state fs)"

text \<open>Reading an attribute that does not exist raises \<^verbatim>\<open>AttributeError\<close>, as does calling
  a method on \<^verbatim>\<open>None\<close>.\<close>

definition get_attr :: "(state \<Rightarrow> 'a option) \<Rightarrow> 'a action" where
  "get_attr field s = (case field s of None \<Rightarrow> (Inl AttributeError, s) | Some a \<Rightarrow> (Inr a, s))"

text \<open>
  \<^verbatim>\<open>
  def _path_for(self, path):
      return ntpath.normpath(ntpath.join(self.cur_dir, path))
  \<close>
\<close>

definition path_for :: "string \<Rightarrow> string action" where
  "path_for path = and_then (get_attr cur_dir) (\<lambda>cur. return (normpath (join cur [path])))"

text \<open>
  \<^verbatim>\<open>
  def _change_dir(self, path):
      try:
          self.conn.listPath(self.service, path)
          self.cur_dir = path
      except OperationFailure as e:
          print("[Error] Failed to change directory:", e.status.name)
  \<close>
  The handler reads \<^verbatim>\<open>e.status.name\<close> to build the arguments of \<^verbatim>\<open>print\<close>. The class
  \<^verbatim>\<open>OperationFailure\<close> of pysmb (\<^verbatim>\<open>smb.smb_structs\<close>) has the attributes \<^verbatim>\<open>message\<close> and
  \<^verbatim>\<open>smb_messages\<close> and no attribute \<^verbatim>\<open>status\<close>: the read raises \<^verbatim>\<open>AttributeError\<close>
  inside the handler, before \<^verbatim>\<open>print\<close> is called, and that exception leaves the method.
  \<open>OperationFailure message\<close> carries the message of the exception. Any other exception
  of \<^verbatim>\<open>listPath\<close> is not caught.
\<close>

definition status_name :: "error \<Rightarrow> string action" where
  "status_name e = raise AttributeError"

definition smb_listPath :: "env \<Rightarrow> string \<Rightarrow> shared_file list action" where
  "smb_listPath env path =
     and_then (get_attr conn) (\<lambda>c.
     and_then (get_attr service) (\<lambda>sv. (\<lambda>s.
       (listPath env (trace s) c sv path, emit (Call c (ListPath sv path)) s))))"

definition change_dir :: "env \<Rightarrow> string \<Rightarrow> unit action" where
  "change_dir env path s =
     (case smb_listPath env path s of
        (Inr resp, s') \<Rightarrow> (Inr (), s'\<lparr>cur_dir := Some path\<rparr>)
      | (Inl (OperationFailure message), s') \<Rightarrow>
          and_then (status_name (OperationFailure message))
            (\<lambda>name. py_print (''[Error] Failed to change directory: '' @ name)) s'
      | (Inl e, s') \<Rightarrow> (Inl e, s'))"

subsection \<open>The commands\<close>

text \<open>
  Each \<^verbatim>\<open>do_\<close> method is given the list \<open>args\<close> that \<^verbatim>\<open>shlex.split(arg_str)\<close> returns.
  A method that ends normally returns whether the command loop is to stop.
\<close>

definition smb_call :: "env \<Rightarrow> (string \<Rightarrow> request) \<Rightarrow> unit action" where
  "smb_call env req =
     and_then (get_attr conn) (\<lambda>c.
     and_then (get_attr service) (\<lambda>sv. (\<lambda>s.
       (case call_result env (trace s) c (req sv) of None \<Rightarrow> Inr () | Some e \<Rightarrow> Inl e,
        emit (Call c (req sv)) s))))"

definition print_listing :: "shared_file list \<Rightarrow> unit action" where
  "print_listing resp =
     (case list_and_print resp of Inl e \<Rightarrow> raise e | Inr rows \<Rightarrow> for_each py_print rows)"

text \<open>
  \<^verbatim>\<open>
  def do_ls(self, arg_str):
      args = shlex.split(arg_str)
      if not args:
          path = self.cur_dir
      elif len(args) == 1:
          path = self._path_for(args[0])
      else:
          print("Too many arguments")
          return
      resp = self.conn.listPath(self.service, path)
      filelist = []
      for sf in resp: ...
      print_filelist(filelist)
  \<close>
\<close>

definition do_ls :: "env \<Rightarrow> string list \<Rightarrow> unit action" where
  "do_ls env args =
     (if args = [] then
        and_then (get_attr cur_dir) (\<lambda>path. and_then (smb_listPath env path) print_listing)
      else if length args = 1 then
        and_then (path_for (args ! 0)) (\<lambda>path. and_then (smb_listPath env path) print_listing)
      else py_print ''Too many arguments'')"

text \<open>\<^verbatim>\<open>do_lls\<close> does the same with \<^verbatim>\<open>os.listdir\<close>, \<^verbatim>\<open>os.path.isdir\<close> and
  \<^verbatim>\<open>os.path.getsize\<close> on \<^verbatim>\<open>os.getcwd()\<close> or \<^verbatim>\<open>self._lpath_for(args[0])\<close>.\<close>

definition local_listing :: "env \<Rightarrow> string \<Rightarrow> unit action" where
  "local_listing env path s =
     (case listdir env (trace s) path of
        Inl e \<Rightarrow> (Inl e, emit (ListDir path) s)
      | Inr entries \<Rightarrow>
          print_listing
            (map (\<lambda>(n, d, z). \<lparr>filename = n, isDirectory = d, file_size = z\<rparr>) entries)
            (emit (ListDir path) s))"

definition do_lls :: "env \<Rightarrow> string list \<Rightarrow> unit action" where
  "do_lls env args s =
     (if args = [] then local_listing env (getcwd env (trace s)) s
      else if length args = 1 then local_listing env (lpath_for env (trace s) (args ! 0)) s
      else py_print ''Too many arguments'' s)"

text \<open>
  \<^verbatim>\<open>
  def do_mkdir(self, arg_str):
      args = shlex.split(arg_str)
      if not args:
          print("Error: Directory name is missing")
          return
      for arg in args:
          self.conn.createDirectory(self.service, self._path_for(arg))
  \<close>
\<close>

definition do_mkdir :: "env \<Rightarrow> string list \<Rightarrow> unit action" where
  "do_mkdir env args =
     (if args = [] then py_print ''Error: Directory name is missing''
      else for_each (\<lambda>arg. and_then (path_for arg)
                      (\<lambda>path. smb_call env (\<lambda>sv. CreateDirectory sv path))) args)"

text \<open>
  \<^verbatim>\<open>
  def do_cd(self, arg_str):
      args = shlex.split(arg_str)
      if not args:
          path = "\\"
      elif len(args) == 1:
          path = self._path_for(args[0])
      else:
          print("[Error] Too many arguments")
          return
      self._change_dir(path)
  \<close>
\<close>

definition do_cd :: "env \<Rightarrow> string list \<Rightarrow> unit action" where
  "do_cd env args =
     (if args = [] then change_dir env [sep]
      else if length args = 1 then and_then (path_for (args ! 0)) (change_dir env)
      else py_print ''[Error] Too many arguments'')"

text \<open>\<^verbatim>\<open>do_lcd\<close>: \<^verbatim>\<open>os.chdir\<close> on \<^verbatim>\<open>self._lpath_for("~")\<close> or
  \<^verbatim>\<open>self._lpath_for(args[0])\<close>.\<close>

definition local_chdir :: "env \<Rightarrow> string \<Rightarrow> unit action" where
  "local_chdir env path s =
     (case chdir_result env (trace s) path of None \<Rightarrow> Inr () | Some e \<Rightarrow> Inl e,
      emit (ChDir path) s)"

definition do_lcd :: "env \<Rightarrow> string list \<Rightarrow> unit action" where
  "do_lcd env args s =
     (if args = [] then local_chdir env (lpath_for env (trace s) ''~'') s
      else if length args = 1 then local_chdir env (lpath_for env (trace s) (args ! 0)) s
      else py_print ''[Error] Too many arguments'' s)"

text \<open>
  \<^verbatim>\<open>
  with open(dest, "wb") as localfile:
      self.conn.retrieveFile(self.service, src, localfile)
  \<close>
  \<^verbatim>\<open>open\<close> in mode \<^verbatim>\<open>"wb"\<close> creates the file or truncates it, or raises; the library then
  writes to the file object; leaving the \<^verbatim>\<open>with\<close> block closes the file, whether
  \<^verbatim>\<open>retrieveFile\<close> returned or raised, and an exception goes on to the caller.
\<close>

definition download :: "env \<Rightarrow> string \<Rightarrow> string \<Rightarrow> unit action" where
  "download env src dest s =
     (case open_result env (trace s) dest of
        Some e \<Rightarrow> (Inl e, emit (OpenWrite dest) s)
      | None \<Rightarrow>
          (let s1 = emit (OpenWrite dest) (s\<lparr>files := (files s)(dest \<mapsto> [])\<rparr>)
           in case and_then (get_attr conn) (\<lambda>c. and_then (get_attr service) (\<lambda>sv. return (c, sv))) s1 of
                (Inl e, s2) \<Rightarrow> (Inl e, emit (CloseFile dest) s2)
              | (Inr (c, sv), s2) \<Rightarrow>
                  (let written = fst (retrieveFile env (trace s2) c sv src);
                       failure = snd (retrieveFile env (trace s2) c sv src);
                       s3 = emit (Call c (RetrieveFile sv src))
                              (s2\<lparr>files := (files s2)(dest \<mapsto> written)\<rparr>)
                   in (case failure of None \<Rightarrow> Inr () | Some e \<Rightarrow> Inl e,
                       emit (CloseFile dest) s3))))"

text \<open>
  \<^verbatim>\<open>
  def do_get(self, arg_str):
      args = shlex.split(arg_str)
      if not args:
          print("[Error] File name is missing")
          return
      if len(args) == 1:
          src = self._path_for(args[0])
          dest = self._lpath_for(ntpath.basename(src))
      elif len(args) == 2:
          src = self._path_for(args[0])
          dest = self._lpath_for(args[1])
      else:
          print("[Error] Too many arguments")
          return
      with open(dest, "wb") as localfile:
          self.conn.retrieveFile(self.service, src, localfile)
  \<close>
\<close>

definition do_get :: "env \<Rightarrow> string list \<Rightarrow> unit action" where
  "do_get env args =
     (if args = [] then py_print ''[Error] File name is missing''
      else if length args = 1 then
        and_then (path_for (args ! 0))
          (\<lambda>src s. download env src (lpath_for env (trace s) (basename src)) s)
      else if length args = 2 then
        and_then (path_for (args ! 0))
          (\<lambda>src s. download env src (lpath_for env (trace s) (args ! 1)) s)
      else py_print ''[Error] Too many arguments'')"

text \<open>
  \<^verbatim>\<open>
  for arg in args:
      filename = ntpath.basename(arg)
      print("Downloading", filename)
      src = self._path_for(arg)
      dest = self._lpath_for(filename)
      with open(dest, "wb") as localfile:
          self.conn.retrieveFile(self.service, src, localfile)
  \<close>
\<close>

definition do_mget :: "env \<Rightarrow> string list \<Rightarrow> unit action" where
  "do_mget env args =
     (if args = [] then py_print ''[Error] File name is missing''
      else for_each (\<lambda>arg.
             and_then (py_print (''Downloading '' @ basename arg)) (\<lambda>_.
             and_then (path_for arg)
               (\<lambda>src s. download env src (lpath_for env (trace s) (basename arg)) s))) args)"

text \<open>
  \<^verbatim>\<open>
  with open(src, "rb") as localfile:
      self.conn.storeFile(self.service, dest, localfile)
  \<close>
\<close>

definition upload :: "env \<Rightarrow> string \<Rightarrow> string \<Rightarrow> unit action" where
  "upload env src dest s =
     (case open_result env (trace s) src of
        Some e \<Rightarrow> (Inl e, emit (OpenRead src) s)
      | None \<Rightarrow>
          (case smb_call env (\<lambda>sv. StoreFile sv dest) (emit (OpenRead src) s) of
             (r, s') \<Rightarrow> (r, emit (CloseFile src) s')))"

definition do_put :: "env \<Rightarrow> string list \<Rightarrow> unit action" where
  "do_put env args s =
     (if args = [] then py_print ''[Error] File name is missing'' s
      else if length args = 1 then
        and_then (path_for (local_basename env (lpath_for env (trace s) (args ! 0))))
          (upload env (lpath_for env (trace s) (args ! 0))) s
      else if length args = 2 then
        and_then (path_for (args ! 1)) (upload env (lpath_for env (trace s) (args ! 0))) s
      else py_print ''[Error] Too many arguments'' s)"

definition do_mput :: "env \<Rightarrow> string list \<Rightarrow> unit action" where
  "do_mput env args =
     (if args = [] then py_print ''[Error] File name is missing''
      else for_each (\<lambda>arg.
             and_then (py_print (''Uploading '' @ local_basename env arg)) (\<lambda>_ s.
               and_then (path_for (local_basename env arg))
                 (upload env (lpath_for env (trace s) arg)) s)) args)"

text \<open>
  \<^verbatim>\<open>
  for arg in args:
      self.conn.deleteFiles(self.service, self._path_for(arg))
  \<close>
\<close>

definition do_rm :: "env \<Rightarrow> string list \<Rightarrow> unit action" where
  "do_rm env args =
     (if args = [] then py_print ''[Error] File name is missing''
      else for_each (\<lambda>arg. and_then (path_for arg)
                      (\<lambda>path. smb_call env (\<lambda>sv. DeleteFiles sv path))) args)"

text \<open>
  \<^verbatim>\<open>
  def do_rmdir(self, arg):
      args = shlex.split(arg_str)
  \<close>
  The parameter is named \<^verbatim>\<open>arg\<close>, so the first statement raises \<^verbatim>\<open>NameError\<close>.
\<close>

definition do_rmdir :: "env \<Rightarrow> string \<Rightarrow> unit action" where
  "do_rmdir env arg = raise NameError"

text \<open>
  \<^verbatim>\<open>
  elif len(args) == 2:
      src = self._path_for(args[0])
      dest = self._path_for(args[1])
      self.conn.rename(self.service, src, dest)
  else:
      dest_dir = self._path_for(args[-1])
      for arg in args[:-1]:
          filename = ntpath.basename(arg)
          print("Moving", filename)
          src = self._path_for(arg)
          dest = ntpath.join(dest_dir, filename)
          self.conn.rename(self.service, src, dest)
  \<close>
\<close>

definition do_mv :: "env \<Rightarrow> string list \<Rightarrow> unit action" where
  "do_mv env args =
     (if args = [] then py_print ''[Error] File name is missing''
      else if length args = 1 then py_print ''[Error] New name is missing''
      else if length args = 2 then
        and_then (path_for (args ! 0)) (\<lambda>src.
        and_then (path_for (args ! 1)) (\<lambda>dest.
        smb_call env (\<lambda>sv. Rename sv src dest)))
      else
        and_then (path_for (last args)) (\<lambda>dest_dir.
        for_each (\<lambda>arg.
          and_then (py_print (''Moving '' @ basename arg)) (\<lambda>_.
          and_then (path_for arg) (\<lambda>src.
          smb_call env (\<lambda>sv. Rename sv src (join dest_dir [basename arg]))))) (butlast args)))"

definition do_pwd :: "env \<Rightarrow> unit action" where
  "do_pwd env =
     and_then (get_attr cur_dir) (\<lambda>cur.
     and_then (py_print (''Remote: '' @ cur)) (\<lambda>_ s.
     py_print (''Local: '' @ getcwd env (trace s)) s))"

text \<open>\<^verbatim>\<open>do_info\<close> prints six attributes of the connection object, \<^verbatim>\<open>do_help\<close> the
  documentation of a command.\<close>

definition do_info :: "unit action" where
  "do_info = and_then (get_attr conn) (\<lambda>c s. (Inr (), emit (Info c) s))"

definition do_help :: "string \<Rightarrow> unit action" where
  "do_help arg_str s = (Inr (), emit (Help arg_str) s)"

datatype command =
    Ls "string list"
  | Lls "string list"
  | Mkdir "string list"
  | Cd "string list"
  | Lcd "string list"
  | Get "string list"
  | Mget "string list"
  | Put "string list"
  | Mput "string list"
  | Rm "string list"
  | Rmdir string
  | Mv "string list"
  | Pwd
  | Info_cmd
  | Quit
  | Help_cmd string
  | Unknown string

text \<open>\<^verbatim>\<open>Cmd.onecmd\<close>: the method of the command is run; only \<^verbatim>\<open>do_quit\<close> returns
  \<^verbatim>\<open>True\<close>. A line that names no command prints a message.\<close>

definition unit_cmd :: "unit action \<Rightarrow> bool action" where
  "unit_cmd m = and_then m (\<lambda>_. return False)"

fun onecmd :: "env \<Rightarrow> command \<Rightarrow> bool action" where
  "onecmd env (Ls args) = unit_cmd (do_ls env args)"
| "onecmd env (Lls args) = unit_cmd (do_lls env args)"
| "onecmd env (Mkdir args) = unit_cmd (do_mkdir env args)"
| "onecmd env (Cd args) = unit_cmd (do_cd env args)"
| "onecmd env (Lcd args) = unit_cmd (do_lcd env args)"
| "onecmd env (Get args) = unit_cmd (do_get env args)"
| "onecmd env (Mget args) = unit_cmd (do_mget env args)"
| "onecmd env (Put args) = unit_cmd (do_put env args)"
| "onecmd env (Mput args) = unit_cmd (do_mput env args)"
| "onecmd env (Rm args) = unit_cmd (do_rm env args)"
| "onecmd env (Rmdir arg) = unit_cmd (do_rmdir env arg)"
| "onecmd env (Mv args) = unit_cmd (do_mv env args)"
| "onecmd env Pwd = unit_cmd (do_pwd env)"
| "onecmd env Info_cmd = unit_cmd do_info"
| "onecmd env Quit = return True"
| "onecmd env (Help_cmd arg_str) = unit_cmd (do_help arg_str)"
| "onecmd env (Unknown line) = unit_cmd (py_print (''*** Unknown syntax: '' @ line))"

text \<open>\<^verbatim>\<open>Cmd.cmdloop\<close> on the commands typed, until one stops the loop or raises.\<close>

fun cmdloop :: "env \<Rightarrow> command list \<Rightarrow> unit action" where
  "cmdloop env [] = return ()"
| "cmdloop env (c # cs) =
     and_then (onecmd env c) (\<lambda>stop. if stop then return () else cmdloop env cs)"

text \<open>The states the shell can be in when the commands typed are among those that \<open>P\<close>
  admits: after the constructor has returned, and after any such command (or a further
  call of \<^verbatim>\<open>_connect\<close>) has returned from such a state.\<close>

inductive reachable :: "(command \<Rightarrow> bool) \<Rightarrow> env \<Rightarrow> state \<Rightarrow> bool"
  for P :: "command \<Rightarrow> bool" and env :: env where
  init: "client_init env config fs = (Inr (), s) \<Longrightarrow> reachable P env s"
| command: "reachable P env s \<Longrightarrow> P c \<Longrightarrow> onecmd env c s = (Inr stop, s') \<Longrightarrow> reachable P env s'"
| reconnect: "reachable P env s \<Longrightarrow> connect env config s = (Inr (), s') \<Longrightarrow> reachable P env s'"

subsection \<open>An environment and a configuration to run the shell on\<close>

text \<open>
  A concrete outside world for running the definitions: the name service finds no
  address, the user types \<^verbatim>\<open>10.0.0.5\<close> at every prompt, the server accepts the
  connection and lists every path as an empty directory except \<^verbatim>\<open>\missing\<close>, which it
  refuses, and every download delivers three bytes and then fails.
\<close>

definition example_env :: env where
  "example_env =
     \<lparr>input_line = (\<lambda>t. Some ''10.0.0.5''),
      getpass_line = (\<lambda>t. Some ''secret''),
      queryName = (\<lambda>t name. Some []),
      connect_result = (\<lambda>t c ip port. Inr True),
      listPath = (\<lambda>t c sv path.
         if path = sep # ''missing'' then Inl (OperationFailure ''STATUS_OBJECT_NAME_NOT_FOUND'')
         else Inr []),
      retrieveFile = (\<lambda>t c sv path. ([1, 2, 3], Some (ConnectionError ''timeout''))),
      call_result = (\<lambda>t c req. None),
      open_result = (\<lambda>t path. None),
      listdir = (\<lambda>t path. Inr []),
      chdir_result = (\<lambda>t path. None),
      getcwd = (\<lambda>t. ''/home/user''),
      lpath_for = (\<lambda>t path. ''/home/user/'' @ path),
      local_basename = (\<lambda>path. path)\<rparr>"

definition example_config :: config where
  "example_config =
     \<lparr>servername = Some ''3ds'', username = Some ''user'', password = Some ''secret'',
      serverip = None, serverport = None, share = None\<rparr>"

text \<open>The state the constructor leaves in that world.\<close>

definition example_state :: state where
  "example_state =
     \<lparr>conn = Some 0, service = Some ''microSD'', cur_dir = Some [sep],
      trace =
        [QueryName ''3ds'',
         Print ''[Error] Name resolution failed. Please enter the 3DS IP manually.'',
         Input ''IP: '',
         NewConnection 0 ''user'' ''secret'' ''3ds'',
         Connect 0 ''10.0.0.5'' 139,
         Print ''Connected to 10.0.0.5''],
      files = Map.empty, live = {0}, next_conn = 1\<rparr>"

text \<open>The state a second call of \<^verbatim>\<open>_connect\<close> leaves, from the state above.\<close>

definition example_reconnected :: state where
  "example_reconnected =
     \<lparr>conn = Some 1, service = Some ''microSD'', cur_dir = Some [sep],
      trace = trace example_state @
        [Close 0,
         QueryName ''3ds'',
         Print ''[Error] Name resolution failed. Please enter the 3DS IP manually.'',
         Input ''IP: '',
         NewConnection 1 ''user'' ''secret'' ''3ds'',
         Connect 1 ''10.0.0.5'' 139,
         Print ''Connected to 10.0.0.5''],
      files = Map.empty, live = {1}, next_conn = 2\<rparr>"

text \<open>The states after \<^verbatim>\<open>cd DCIM\<close> and after \<^verbatim>\<open>cd C:foo\<close>, typed in the state the
  constructor leaves.\<close>

definition example_cd_state :: state where
  "example_cd_state =
     example_state\<lparr>cur_dir := Some (sep # ''DCIM''),
       trace := trace example_state @ [Call 0 (ListPath ''microSD'' (sep # ''DCIM''))]\<rparr>"

definition example_drive_state :: state where
  "example_drive_state =
     example_state\<lparr>cur_dir := Some ''C:foo'',
       trace := trace example_state @ [Call 0 (ListPath ''microSD'' ''C:foo'')]\<rparr>"

subsection \<open>Notions for stating the properties\<close>

text \<open>
  A statement keeps the session when, however it ends, it leaves the attributes of the
  client, the open sockets and the numbering of connection objects as they were, and adds
  to the trace no event on a connection's life (creation, \<^verbatim>\<open>connect\<close>, \<^verbatim>\<open>close\<close>).
\<close>

fun session_event :: "event \<Rightarrow> bool" where
  "session_event (NewConnection c u p n) = True"
| "session_event (Connect c ip port) = True"
| "session_event (Close c) = True"
| "session_event ev = False"

definition keeps_session :: "'a action \<Rightarrow> bool" where
  "keeps_session m \<longleftrightarrow>
     (\<forall>s r s'. m s = (r, s') \<longrightarrow>
        conn s' = conn s \<and> service s' = service s \<and> cur_dir s' = cur_dir s \<and>
        live s' = live s \<and> next_conn s' = next_conn s \<and>
        (\<exists>rest. trace s' = trace s @ rest \<and> (\<forall>ev\<in>set rest. \<not> session_event ev)))"

text \<open>The components that \<^verbatim>\<open>normpath\<close> removes when it can.\<close>

definition bad_comp :: "string \<Rightarrow> bool" where
  "bad_comp c \<longleftrightarrow> c = [] \<or> c = ''.'' \<or> c = ''..''"

text \<open>
  A normalized absolute remote path, in the words of the specification: it starts with
  a backslash, it is the share root \<^verbatim>\<open>\\<close> or its components, separated by single
  backslashes, are non-empty, are neither \<^verbatim>\<open>.\<close> nor \<^verbatim>\<open>..\<close> and contain no slash.
\<close>

definition normalized_absolute :: "string \<Rightarrow> bool" where
  "normalized_absolute p \<longleftrightarrow>
     p \<noteq> [] \<and> hd p = sep \<and>
     (p = [sep] \<or> list_all (\<lambda>c. c \<noteq> [] \<and> c \<noteq> ''.'' \<and> c \<noteq> ''..'' \<and> altsep \<notin> set c)
                     (str_split (tl p)))"

text \<open>An argument that names no drive: it has no colon and does not start with two
  separators.\<close>

definition drive_free :: "string \<Rightarrow> bool" where
  "drive_free a \<longleftrightarrow> colon \<notin> set a \<and> \<not> (2 \<le> length a \<and> a ! 0 \<in> seps \<and> a ! 1 \<in> seps)"

text \<open>The commands whose \<^verbatim>\<open>cd\<close> arguments name no drive.\<close>

fun drive_free_command :: "command \<Rightarrow> bool" where
  "drive_free_command (Cd args) = list_all drive_free args"
| "drive_free_command c = True"

section \<open>Properties of \<^verbatim>\<open>format_size\<close>\<close>

lemma bit_length_bounds:
  "0 < n \<Longrightarrow> 2 ^ (bit_length n - 1) \<le> n \<and> n < 2 ^ bit_length n"
proof (induction n rule: bit_length.induct)
  case (1 n)
  show ?case
  proof (cases "n div 2 = 0")
    case True
    with "1.prems" have "n = 1" by presburger
    then show ?thesis by (simp add: bit_length.simps)
  next
    case False
    then have pos: "0 < n div 2" by simp
    from "1.IH" [OF _ pos] "1.prems"
    have ih: "2 ^ (bit_length (n div 2) - 1) \<le> n div 2" "n div 2 < 2 ^ bit_length (n div 2)"
      by auto
    have bl: "bit_length n = Suc (bit_length (n div 2))"
      using "1.prems" by (subst bit_length.simps) simp
    have bp: "0 < bit_length (n div 2)"
      using pos by (subst bit_length.simps) simp
    then obtain b where b: "bit_length (n div 2) = Suc b" by (cases "bit_length (n div 2)") auto
    from ih b have "2 * 2 ^ b \<le> n" "n < 2 * (2 * 2 ^ b)" by auto
    then show ?thesis by (simp add: bl b)
  qed
qed

lemma bit_length_le: "n < 2 ^ k \<Longrightarrow> bit_length n \<le> k"
proof (cases "n = 0")
  case True
  then show ?thesis by (simp add: bit_length.simps)
next
  case False
  assume "n < 2 ^ k"
  moreover from False bit_length_bounds [of n] have "(2::nat) ^ (bit_length n - 1) \<le> n" by simp
  ultimately have "(2::nat) ^ (bit_length n - 1) < 2 ^ k" by (rule le_less_trans [rotated])
  then have "bit_length n - 1 < k" by (rule power_less_imp_less_exp [rotated]) simp
  then show ?thesis by simp
qed

lemma bit_length_gt: "2 ^ k \<le> n \<Longrightarrow> k < bit_length n"
proof -
  assume a: "2 ^ k \<le> n"
  then have "0 < n" by (metis zero_less_numeral zero_less_power less_le_trans)
  with bit_length_bounds [of n] have "n < 2 ^ bit_length n" by simp
  with a have "(2::nat) ^ k < 2 ^ bit_length n" by (rule le_less_trans)
  then show ?thesis by (rule power_less_imp_less_exp [rotated]) simp
qed

lemma rhe_cases:
  "round_half_even a d = a div d \<or> (round_half_even a d = a div d + 1 \<and> d \<le> 2 * (a mod d))"
  by (auto simp: round_half_even_def Let_def)

lemma rhe_lower:
  assumes "0 < d" "d dvd c" "c \<le> a"
  shows "c \<le> round_half_even a d * d"
proof -
  from assms(2) obtain c' where c: "c = c' * d" by (metis dvd_def mult.commute)
  from assms(1,3) have "c' * d div d \<le> a div d" unfolding c by (intro zdiv_mono1) simp_all
  with assms(1) have "c' \<le> a div d" by simp
  moreover have "a div d \<le> round_half_even a d" using rhe_cases [of a d] by auto
  ultimately have "c' \<le> round_half_even a d" by simp
  with assms(1) show ?thesis unfolding c by (simp add: mult_right_mono)
qed

lemma rhe_upper:
  assumes "0 < d" "d dvd c" "a < c"
  shows "round_half_even a d * d \<le> c"
proof -
  from assms(2) obtain c' where c: "c = c' * d" by (metis dvd_def mult.commute)
  have "a div d < c'"
  proof (rule ccontr)
    assume "\<not> a div d < c'"
    then have "c' * d \<le> (a div d) * d" using assms(1) by (simp add: mult_right_mono)
    also have "\<dots> \<le> a"
    proof -
      have "(a div d) * d + a mod d = a" by simp
      moreover have "0 \<le> a mod d" using assms(1) by simp
      ultimately show ?thesis by linarith
    qed
    finally show False using assms(3) unfolding c by simp
  qed
  moreover have "round_half_even a d \<le> a div d + 1" using rhe_cases [of a d] by auto
  ultimately have "round_half_even a d \<le> c'" by simp
  with assms(1) show ?thesis unfolding c by (simp add: mult_right_mono)
qed

lemma rhe_err: 
  assumes "0 < d"
  shows "2 * \<bar>round_half_even a d * d - a\<bar> \<le> d"
proof -
  have a: "a = (a div d) * d + a mod d" by simp
  have r: "0 \<le> a mod d" "a mod d < d" using assms by simp_all
  show ?thesis
  proof (cases "d < 2 * (a mod d) \<or> (2 * (a mod d) = d \<and> odd (a div d))")
    case True
    then have "round_half_even a d = a div d + 1" by (simp add: round_half_even_def Let_def)
    then have "round_half_even a d * d - a = d - a mod d"
      by (simp add: algebra_simps)
    with True r show ?thesis by auto
  next
    case False
    then have "round_half_even a d = a div d" by (simp add: round_half_even_def Let_def)
    then have "round_half_even a d * d - a = - (a mod d)"
      by (simp add: algebra_simps)
    with False r show ?thesis by auto
  qed
qed

lemma nat_pow_le: "2 ^ j \<le> (a::int) \<Longrightarrow> (2::nat) ^ j \<le> nat a"
  by (simp add: le_nat_iff)

lemma nat_lt_pow: "(a::int) < 2 ^ j \<Longrightarrow> nat a < 2 ^ j"
  by (simp add: nat_less_iff)

lemma nearest_double_small:
  assumes "0 \<le> a" "a < 2 ^ 53"
  shows "nearest_double a = a"
proof -
  have "bit_length (nat a) \<le> 53" using assms(2) by (intro bit_length_le nat_lt_pow)
  then show ?thesis by (simp add: nearest_double_def round_half_even_def)
qed

lemma nearest_double_ge_pow:
  assumes "2 ^ j \<le> a"
  shows "2 ^ j \<le> nearest_double a"
proof -
  define L where "L = bit_length (nat a)"
  define e where "e = L - 53"
  have nd: "nearest_double a = round_half_even a (2 ^ e) * 2 ^ e"
    by (simp add: nearest_double_def L_def e_def Let_def)
  have jL: "j < L" unfolding L_def using assms by (intro bit_length_gt nat_pow_le)
  have pos: "0 < nat a" using assms by (smt (verit) zero_less_power zero_less_nat_eq)
  show ?thesis
  proof (cases "e \<le> j")
    case True
    then have "(2::int) ^ e dvd 2 ^ j" by (rule le_imp_power_dvd)
    then show ?thesis unfolding nd using assms by (intro rhe_lower) simp_all
  next
    case False
    then have eL: "e \<le> L - 1" "j \<le> L - 1" using jL by (simp_all add: e_def)
    have "(2::nat) ^ (L - 1) \<le> nat a" using bit_length_bounds [OF pos] by (simp add: L_def)
    then have la: "(2::int) ^ (L - 1) \<le> a" by (simp add: le_nat_iff)
    have "(2::int) ^ e dvd 2 ^ (L - 1)" using eL(1) by (rule le_imp_power_dvd)
    then have "2 ^ (L - 1) \<le> nearest_double a" unfolding nd using la by (intro rhe_lower) simp_all
    moreover have "(2::int) ^ j \<le> 2 ^ (L - 1)" using eL(2) by (simp add: power_increasing)
    ultimately show ?thesis by linarith
  qed
qed

lemma rhe_top:
  assumes "0 < d" "d = 2 * h" "a < P * d - h"
  shows "round_half_even a d * d < P * d"
proof -
  have a: "(a div d) * d + a mod d = a" by simp
  have r: "0 \<le> a mod d" using assms(1) by simp
  from rhe_cases [of a d] show ?thesis
  proof
    assume "round_half_even a d = a div d"
    then have "round_half_even a d * d = (a div d) * d" by simp
    then show ?thesis using a r assms by linarith
  next
    assume h: "round_half_even a d = a div d + 1 \<and> d \<le> 2 * (a mod d)"
    then have "round_half_even a d * d = (a div d) * d + d" by (simp add: algebra_simps)
    then show ?thesis using a h assms by linarith
  qed
qed

lemma rhe_top_up:
  assumes "0 < d" "d = 2 * h" "P * d - h \<le> a" "a < P * d" "odd (P - 1)"
  shows "round_half_even a d * d = P * d"
proof -
  have q: "a div d = P - 1"
    using assms by (intro int_div_pos_eq [where r = "a - (P - 1) * d"]) (simp_all add: algebra_simps)
  have r: "a mod d = a - (P - 1) * d"
    using assms by (intro int_mod_pos_eq [where q = "P - 1"]) (simp_all add: algebra_simps)
  have "d \<le> 2 * (a mod d)" unfolding r using assms by (simp add: algebra_simps)
  then have "round_half_even a d = P"
    using q assms(5) by (auto simp: round_half_even_def Let_def)
  then show ?thesis by simp
qed

lemma pow_split: "54 \<le> J \<Longrightarrow> (2::int) ^ J = 2 ^ 53 * 2 ^ (J - 53) \<and> (2::int) ^ (J - 53) = 2 * 2 ^ (J - 54)"
proof -
  assume j: "54 \<le> J"
  then have "J = 53 + (J - 53)" "J - 53 = Suc (J - 54)" by simp_all
  then show ?thesis by (metis power_add power_Suc)
qed

lemma nearest_double_lt_pow:
  assumes "0 \<le> a" "54 \<le> J" "a < 2 ^ J - 2 ^ (J - 54)"
  shows "nearest_double a < 2 ^ J"
proof -
  define L where "L = bit_length (nat a)"
  define e where "e = L - 53"
  have nd: "nearest_double a = round_half_even a (2 ^ e) * 2 ^ e"
    by (simp add: nearest_double_def L_def e_def Let_def)
  have aJ: "a < 2 ^ J" using assms(3) by (smt (verit) zero_less_power)
  then have LJ: "L \<le> J" unfolding L_def by (intro bit_length_le nat_lt_pow)
  show ?thesis
  proof (cases "L = J")
    case True
    then have e: "e = J - 53" by (simp add: e_def)
    show ?thesis unfolding nd e using pow_split [OF assms(2)] assms(3)
      by (metis rhe_top zero_less_numeral zero_less_power)
  next
    case False
    with LJ have lt: "L < J" by simp
    have "nat a < 2 ^ L"
    proof (cases "nat a = 0")
      case True then show ?thesis by simp
    next
      case False
      then show ?thesis using bit_length_bounds [of "nat a"] by (simp add: L_def)
    qed
    then have aL: "a < 2 ^ L" by (simp add: nat_less_iff)
    have "(2::int) ^ e dvd 2 ^ L" by (rule le_imp_power_dvd) (simp add: e_def)
    then have "nearest_double a \<le> 2 ^ L" unfolding nd using aL by (intro rhe_upper) simp_all
    moreover have "(2::int) ^ L < 2 ^ J" using lt by (simp add: power_strict_increasing)
    ultimately show ?thesis by linarith
  qed
qed

lemma nearest_double_ge_top:
  assumes "54 \<le> J" "2 ^ J - 2 ^ (J - 54) \<le> a"
  shows "2 ^ J \<le> nearest_double a"
proof -
  define L where "L = bit_length (nat a)"
  define e where "e = L - 53"
  have nd: "nearest_double a = round_half_even a (2 ^ e) * 2 ^ e"
    by (simp add: nearest_double_def L_def e_def Let_def)
  have "(2::int) ^ J = 2 * 2 ^ (J - 1)" using assms(1) by (cases J) simp_all
  moreover have "(2::int) ^ (J - 54) \<le> 2 ^ (J - 1)" by (simp add: power_increasing)
  ultimately have "2 ^ (J - 1) \<le> a" using assms(2) by linarith
  then have "J - 1 < L" unfolding L_def by (intro bit_length_gt nat_pow_le)
  then have JL: "J \<le> L" by simp
  show ?thesis
  proof (cases "a < 2 ^ J")
    case False
    then show ?thesis by (intro nearest_double_ge_pow) simp
  next
    case True
    then have "L \<le> J" unfolding L_def by (intro bit_length_le nat_lt_pow)
    with JL have e: "e = J - 53" by (simp add: e_def)
    have "odd ((2::int) ^ 53 - 1)" by simp
    then have "round_half_even a (2 ^ (J - 53)) * 2 ^ (J - 53) = 2 ^ 53 * 2 ^ (J - 53)"
      using pow_split [OF assms(1)] assms(2) True
      by (intro rhe_top_up [where h = "2 ^ (J - 54)"]) simp_all
    then show ?thesis unfolding nd e using pow_split [OF assms(1)] by simp
  qed
qed

lemma str_of_nat_nonempty: "str_of_nat n \<noteq> []"
  by (subst str_of_nat.simps) simp

lemma fmt_3_1f_eq:
  "fmt_3_1f num = (if numer num < 0 then ''-'' else '''')
     @ str_of_nat (tenths num div 10) @ ''.'' @ str_of_nat (tenths num mod 10)"
proof -
  have "1 \<le> length (str_of_nat (tenths num div 10))" "1 \<le> length (str_of_nat (tenths num mod 10))"
    using str_of_nat_nonempty by (simp_all add: Suc_le_eq)
  then show ?thesis by (simp add: fmt_3_1f_def rjust_def)
qed

lemma denom_pos: "0 < denom num"
  by (cases num) simp_all

lemma tenths_close:
  "\<bar>of_int (int (tenths num)) / 10 - \<bar>num_val num\<bar>\<bar> \<le> (1 / 20 :: rat)"
proof -
  define D where "D = denom num"
  define A where "A = 10 * \<bar>numer num\<bar>"
  define t where "t = round_half_even A D"
  have D: "0 < D" by (simp add: D_def denom_pos)
  have "0 * D \<le> t * D" unfolding t_def using D by (intro rhe_lower) (simp_all add: A_def)
  then have t0: "0 \<le> t" using D by (simp add: zero_le_mult_iff)
  have tt: "int (tenths num) = t" using t0 by (simp add: tenths_def t_def A_def D_def)
  have "2 * \<bar>t * D - A\<bar> \<le> D" unfolding t_def using D by (rule rhe_err)
  then have "(of_int (2 * \<bar>t * D - A\<bar>) :: rat) \<le> of_int D" by (simp only: of_int_le_iff)
  then have e: "2 * \<bar>(of_int t :: rat) * of_int D - of_int A\<bar> \<le> of_int D" by simp
  have Dr: "(0::rat) < of_int D" using D by simp
  have "of_int t / 10 - \<bar>num_val num\<bar> = ((of_int t :: rat) * of_int D - of_int A) / (10 * of_int D)"
    using Dr by (simp add: num_val_def A_def D_def [symmetric] field_simps)
  then have "\<bar>of_int t / 10 - \<bar>num_val num\<bar>\<bar> = \<bar>(of_int t :: rat) * of_int D - of_int A\<bar> / (10 * of_int D)"
    using Dr by simp
  also have "\<dots> \<le> 1 / 20" using e Dr by (simp add: field_simps)
  finally show ?thesis by (simp add: tt)
qed

lemma loop_None:
  "1024 ^ (k + length us) \<le> \<bar>m\<bar> \<Longrightarrow> format_size_loop (PyFloat m k) us suffix = Inr None"
proof (induction us arbitrary: k)
  case Nil
  then show ?case by simp
next
  case (Cons u us)
  have "(1024::int) ^ Suc k \<le> 1024 ^ (k + length (u # us))" by (intro power_increasing) simp_all
  then have "(1024::int) ^ Suc k \<le> \<bar>m\<bar>" using Cons.prems by (rule order_trans)
  then have "\<not> abs_lt_1024 (PyFloat m k)" by (simp add: abs_lt_1024_def)
  moreover have "format_size_loop (PyFloat m (Suc k)) us suffix = Inr None"
    using Cons.prems by (intro Cons.IH) simp
  ultimately show ?case by simp
qed

lemma loop_Some:
  "\<bar>m\<bar> < 1024 ^ (k + length us) \<Longrightarrow> 1024 ^ k \<le> \<bar>m\<bar> \<Longrightarrow>
   \<exists>j<length us. \<bar>m\<bar> < 1024 ^ Suc (k + j) \<and> (\<forall>i<j. 1024 ^ Suc (k + i) \<le> \<bar>m\<bar>) \<and>
     format_size_loop (PyFloat m k) us suffix = Inr (Some (fmt_3_1f (PyFloat m (k + j)) @ us ! j @ suffix))"
proof (induction us arbitrary: k)
  case Nil
  then show ?case by simp
next
  case (Cons u us)
  show ?case
  proof (cases "abs_lt_1024 (PyFloat m k)")
    case True
    then show ?thesis by (intro exI [of _ 0]) (simp add: abs_lt_1024_def)
  next
    case False
    then have ge: "1024 ^ Suc k \<le> \<bar>m\<bar>" by (simp add: abs_lt_1024_def)
    from Cons.prems have "\<bar>m\<bar> < 1024 ^ (Suc k + length us)" by simp
    from Cons.IH [OF this ge] obtain j where j: "j < length us" "\<bar>m\<bar> < 1024 ^ Suc (Suc k + j)"
      "\<forall>i<j. 1024 ^ Suc (Suc k + i) \<le> \<bar>m\<bar>"
      "format_size_loop (PyFloat m (Suc k)) us suffix = Inr (Some (fmt_3_1f (PyFloat m (Suc k + j)) @ us ! j @ suffix))"
      by blast
    have "\<forall>i<Suc j. 1024 ^ Suc (k + i) \<le> \<bar>m\<bar>"
    proof (intro allI impI)
      fix i assume "i < Suc j"
      then show "1024 ^ Suc (k + i) \<le> \<bar>m\<bar>" using ge j(3) by (cases i) auto
    qed
    with j False show ?thesis by (intro exI [of _ "Suc j"]) simp
  qed
qed

lemma float_of_int_nonneg:
  "0 \<le> n \<Longrightarrow> float_of_int n =
     (if 2 ^ 1024 \<le> nearest_double n then Inl OverflowError else Inr (nearest_double n))"
proof -
  assume n: "0 \<le> n"
  have "nearest_double 0 = 0" by (simp add: nearest_double_small)
  then have "sgn n * nearest_double n = nearest_double n" using n by (cases "n = 0") simp_all
  then show ?thesis using n by (simp add: float_of_int_def Let_def)
qed

lemma float_of_int_abs:
  "float_of_int n = Inr m \<Longrightarrow> \<bar>m\<bar> = nearest_double \<bar>n\<bar> \<and> nearest_double \<bar>n\<bar> < 2 ^ 1024"
proof -
  assume a: "float_of_int n = Inr m"
  have "0 * 1 \<le> nearest_double \<bar>n\<bar>"
    unfolding nearest_double_def Let_def mult_zero_left
    using rhe_lower [of "2 ^ (bit_length (nat \<bar>n\<bar>) - 53)" 0 "\<bar>n\<bar>"] by simp
  then have nn: "0 \<le> nearest_double \<bar>n\<bar>" by simp
  have z: "nearest_double 0 = 0" by (simp add: nearest_double_small)
  from a have m: "m = sgn n * nearest_double \<bar>n\<bar>" and lt: "nearest_double \<bar>n\<bar> < 2 ^ 1024"
    by (auto simp: float_of_int_def Let_def split: if_splits)
  have "\<bar>m\<bar> = nearest_double \<bar>n\<bar>"
    unfolding m using nn z by (cases "n = 0") (simp_all add: abs_mult)
  with lt show ?thesis by simp
qed

lemma format_size_unfold_large:
  "1024 \<le> \<bar>n\<bar> \<Longrightarrow> format_size n suffix =
     (case float_of_int n of Inl e \<Rightarrow> Inl e
      | Inr m \<Rightarrow> format_size_loop (PyFloat m 1) (tl units) suffix)"
proof -
  assume "1024 \<le> \<bar>n\<bar>"
  then have "\<not> abs_lt_1024 (PyInt n)" by (simp add: abs_lt_1024_def)
  moreover have "units = '''' # tl units" by (simp add: units_def)
  ultimately have "format_size_loop (PyInt n) units suffix =
     (case div_1024 (PyInt n) of Inl e \<Rightarrow> Inl e | Inr num' \<Rightarrow> format_size_loop num' (tl units) suffix)"
    by (metis format_size_loop.simps(2))
  then show ?thesis by (simp add: format_size_def split: sum.splits)
qed

lemma length_units: "length units = 8"
  by (simp add: units_def)

lemma format_size_overflow:
  assumes "2 ^ 1024 - 2 ^ 970 \<le> \<bar>n\<bar>"
  shows "format_size n suffix = Inl OverflowError"
proof -
  have "(2::int) ^ 1024 \<le> nearest_double \<bar>n\<bar>"
    using assms by (intro nearest_double_ge_top) simp_all
  then have f: "float_of_int n = Inl OverflowError" by (simp add: float_of_int_def)
  have "(1024::int) \<le> 2 ^ 1024 - 2 ^ 970" by simp
  with assms have "1024 \<le> \<bar>n\<bar>" by linarith
  then show ?thesis by (simp add: format_size_unfold_large f)
qed

lemma format_size_none:
  assumes "1024 ^ 8 \<le> \<bar>n\<bar>" "\<bar>n\<bar> < 2 ^ 1024 - 2 ^ 970"
  shows "format_size n suffix = Inr None"
proof -
  have "nearest_double \<bar>n\<bar> < 2 ^ 1024"
    using assms(2) by (intro nearest_double_lt_pow) simp_all
  then obtain m where f: "float_of_int n = Inr m" by (simp add: float_of_int_def Let_def)
  have "(2::int) ^ 80 \<le> nearest_double \<bar>n\<bar>"
    using assms(1) by (intro nearest_double_ge_pow) simp
  with float_of_int_abs [OF f] have "1024 ^ (1 + 7) \<le> \<bar>m\<bar>" by simp
  then have "format_size_loop (PyFloat m 1) (tl units) suffix = Inr None"
    by (intro loop_None) (simp add: length_units)
  moreover have "1024 \<le> \<bar>n\<bar>" using assms(1) by simp
  ultimately show ?thesis by (simp add: format_size_unfold_large f)
qed

lemma format_size_renders:
  assumes "0 \<le> n" "n < 2 ^ 80 - 2 ^ 26"
  shows "\<exists>v k t. float_of_int n = Inr v \<and> (n < 2 ^ 53 \<longrightarrow> v = n) \<and> k < 8 \<and>
           v < 1024 ^ Suc k \<and> (\<forall>j<k. 1024 ^ Suc j \<le> v) \<and>
           \<bar>of_int (int t) / 10 - of_int v / 1024 ^ k\<bar> \<le> (1 / 20 :: rat) \<and>
           format_size n suffix =
             Inr (Some (str_of_nat (t div 10) @ ''.'' @ str_of_nat (t mod 10) @ units ! k @ suffix))"
proof -
  define v where "v = nearest_double n"
  have v80: "v < 2 ^ 80" unfolding v_def using assms by (intro nearest_double_lt_pow) simp_all
  have "(2::int) ^ 80 < 2 ^ 1024" by simp
  with v80 have "v < 2 ^ 1024" by linarith
  then have f: "float_of_int n = Inr v" using assms(1) by (simp add: float_of_int_nonneg v_def)
  have small: "n < 2 ^ 53 \<longrightarrow> v = n" using assms(1) by (simp add: v_def nearest_double_small)
  show ?thesis
  proof (cases "n < 1024")
    case True
    then have vn: "v = n" using small by simp
    let ?t = "tenths (PyInt n)"
    have "\<bar>of_int (int ?t) / 10 - \<bar>num_val (PyInt n)\<bar>\<bar> \<le> (1 / 20 :: rat)" by (rule tenths_close)
    then have c: "\<bar>of_int (int ?t) / 10 - of_int v / 1024 ^ 0\<bar> \<le> (1 / 20 :: rat)"
      using assms(1) by (simp add: num_val_def vn)
    have r: "format_size n suffix =
        Inr (Some (str_of_nat (?t div 10) @ ''.'' @ str_of_nat (?t mod 10) @ units ! 0 @ suffix))"
      using True assms(1) by (simp add: format_size_def units_def abs_lt_1024_def fmt_3_1f_eq)
    have "v < 1024 ^ Suc 0" using True vn by simp
    with f small c r show ?thesis by (intro exI [of _ v] exI [of _ 0] exI [of _ ?t]) simp
  next
    case False
    then have n: "1024 \<le> \<bar>n\<bar>" by simp
    have "(2::int) ^ 10 \<le> v" unfolding v_def using False by (intro nearest_double_ge_pow) simp
    then have v10: "1024 \<le> v" by simp
    then have av: "\<bar>v\<bar> = v" by simp
    let ?us = "tl units"
    have "\<bar>v\<bar> < 1024 ^ (1 + length ?us)" "1024 ^ 1 \<le> \<bar>v\<bar>"
      using v80 v10 by (simp_all add: length_units)
    from loop_Some [OF this, of suffix] obtain j where j: "j < length ?us" "\<bar>v\<bar> < 1024 ^ Suc (1 + j)"
      "\<forall>i<j. 1024 ^ Suc (1 + i) \<le> \<bar>v\<bar>"
      "format_size_loop (PyFloat v 1) ?us suffix = Inr (Some (fmt_3_1f (PyFloat v (1 + j)) @ ?us ! j @ suffix))"
      by blast
    let ?t = "tenths (PyFloat v (1 + j))"
    have "\<bar>of_int (int ?t) / 10 - \<bar>num_val (PyFloat v (1 + j))\<bar>\<bar> \<le> (1 / 20 :: rat)" by (rule tenths_close)
    then have c: "\<bar>of_int (int ?t) / 10 - of_int v / 1024 ^ Suc j\<bar> \<le> (1 / 20 :: rat)"
      using v10 by (simp add: num_val_def)
    have lo: "\<forall>i<Suc j. 1024 ^ Suc i \<le> v"
    proof (intro allI impI)
      fix i assume "i < Suc j"
      then show "1024 ^ Suc i \<le> v" using v10 j(3) unfolding av by (cases i) auto
    qed
    have j7: "j < 7" and jv: "v < 1024 ^ Suc (Suc j)" using j(1,2) unfolding av by (simp_all add: length_units)
    have u: "units ! Suc j = ?us ! j" by (simp add: units_def)
    have "numer (PyFloat v (1 + j)) \<ge> 0" using v10 by simp
    then have r: "format_size n suffix =
        Inr (Some (str_of_nat (?t div 10) @ ''.'' @ str_of_nat (?t mod 10) @ units ! Suc j @ suffix))"
      unfolding u using j(4) v10 by (simp add: format_size_unfold_large [OF n] f fmt_3_1f_eq)
    from f small j7 jv lo c r show ?thesis
      by (intro exI [of _ v] exI [of _ "Suc j"] exI [of _ ?t]) simp
  qed
qed

lemmas fs_defs =
  format_size_def units_def abs_lt_1024_def fmt_3_1f_def tenths_def float_of_int_def
  nearest_double_def round_half_even_def rjust_def str_of_nat.simps bit_length.simps digit_char_def

lemma format_size_examples:
  "format_size 0 ''B'' = Inr (Some ''0.0B'')"
  "format_size 1024 ''B'' = Inr (Some ''1.0KiB'')"
  "format_size 1536 ''B'' = Inr (Some ''1.5KiB'')"
  "format_size 1048576 ''B'' = Inr (Some ''1.0MiB'')"
  by (simp_all add: fs_defs)

text \<open>
  Claim C5, as the code has it. For every size \<open>n\<close> with \<open>0 \<le> n < 2 ^ 80 - 2 ^ 26\<close>
  (the sizes whose nearest double \<open>v\<close> is below \<open>1024 ^ 8\<close>; \<open>v = n\<close> below \<open>2 ^ 53\<close>),
  \<^verbatim>\<open>format_size\<close> returns a text: \<open>v / 1024 ^ k\<close> rounded to one decimal place (\<open>t\<close>
  tenths, at most half a tenth away), followed by the \<open>k\<close>-th unit and the suffix, where
  \<open>k\<close> is the first unit at which the magnitude is below 1024, every smaller unit leaving
  it at 1024 or more. And \<open>0\<close>, \<open>1024\<close>, \<open>1536\<close>, \<open>1048576\<close> are rendered
  \<^verbatim>\<open>0.0B\<close>, \<^verbatim>\<open>1.0KiB\<close>, \<^verbatim>\<open>1.5KiB\<close>, \<^verbatim>\<open>1.0MiB\<close>.
\<close>

theorem format_size_base_1024:
  "(0 \<le> n \<and> n < 2 ^ 80 - 2 ^ 26 \<longrightarrow>
      (\<exists>v k t. float_of_int n = Inr v \<and> (n < 2 ^ 53 \<longrightarrow> v = n) \<and> k < 8 \<and>
         v < 1024 ^ Suc k \<and> (\<forall>j<k. 1024 ^ Suc j \<le> v) \<and>
         \<bar>of_int (int t) / 10 - of_int v / 1024 ^ k\<bar> \<le> (1 / 20 :: rat) \<and>
         format_size n suffix =
           Inr (Some (str_of_nat (t div 10) @ ''.'' @ str_of_nat (t mod 10) @ units ! k @ suffix))))
   \<and> format_size 0 ''B'' = Inr (Some ''0.0B'')
   \<and> format_size 1024 ''B'' = Inr (Some ''1.0KiB'')
   \<and> format_size 1536 ''B'' = Inr (Some ''1.5KiB'')
   \<and> format_size 1048576 ''B'' = Inr (Some ''1.0MiB'')"
  using format_size_renders [of n suffix] format_size_examples by blast

theorem format_size_base_1024_witness:
  "(0::int) \<le> 1536 \<and> (1536::int) < 2 ^ 80 - 2 ^ 26 \<and>
   (\<exists>v k t. float_of_int 1536 = Inr v \<and> ((1536::int) < 2 ^ 53 \<longrightarrow> v = 1536) \<and> k < 8 \<and>
      v < 1024 ^ Suc k \<and> (\<forall>j<k. 1024 ^ Suc j \<le> v) \<and>
      \<bar>of_int (int t) / 10 - of_int v / 1024 ^ k\<bar> \<le> (1 / 20 :: rat) \<and>
      format_size 1536 ''B'' =
        Inr (Some (str_of_nat (t div 10) @ ''.'' @ str_of_nat (t mod 10) @ units ! k @ ''B'')))"
proof -
  have h: "(0::int) \<le> 1536 \<and> (1536::int) < 2 ^ 80 - 2 ^ 26" by simp
  from format_size_base_1024 [of 1536 "''B''"] h show ?thesis by blast
qed

text \<open>The claim as the specification words it, for every non-negative size, fails at
  \<open>1024 ^ 8\<close>: no text is returned there.\<close>

theorem format_size_base_1024_counterexample:
  "(0::int) \<le> 1024 ^ 8 \<and> \<not> (\<exists>s. format_size (1024 ^ 8) ''B'' = Inr (Some s))"
  by (simp add: fs_defs)

text \<open>
  Claim C10, as the code has it. For every size of magnitude \<open>1024 ^ 8\<close> or more
  \<^verbatim>\<open>format_size\<close> returns no text: it falls off the loop and returns \<^verbatim>\<open>None\<close> while the
  magnitude is below \<open>2 ^ 1024 - 2 ^ 970\<close>, and from there on the conversion to
  \<open>float\<close> at the first division raises \<^verbatim>\<open>OverflowError\<close>.
\<close>

theorem format_size_beyond_Zi:
  "1024 ^ 8 \<le> \<bar>n\<bar> \<Longrightarrow>
   format_size n suffix =
     (if \<bar>n\<bar> < 2 ^ 1024 - 2 ^ 970 then Inr None else Inl OverflowError)"
  using format_size_none [of n suffix] format_size_overflow [of n suffix]
  by (cases "\<bar>n\<bar> < 2 ^ 1024 - 2 ^ 970") simp_all

theorem format_size_beyond_Zi_witness:
  "(1024::int) ^ 8 \<le> \<bar>1024 ^ 8\<bar> \<and> format_size (1024 ^ 8) ''B'' = Inr None"
  using format_size_beyond_Zi [of "1024 ^ 8" "''B''"] by simp

text \<open>The claim as worded, \<^verbatim>\<open>None\<close> for every magnitude of \<open>1024 ^ 8\<close> or more, fails at
  \<open>2 ^ 1024\<close>, where the call raises instead of returning.\<close>

theorem format_size_beyond_Zi_counterexample:
  "(1024::int) ^ 8 \<le> \<bar>2 ^ 1024\<bar> \<and> format_size (2 ^ 1024) ''B'' = Inl OverflowError
   \<and> format_size (2 ^ 1024) ''B'' \<noteq> Inr None"
proof -
  have "(2::int) ^ 1024 - 2 ^ 970 \<le> \<bar>2 ^ 1024\<bar>" by simp
  then have "format_size (2 ^ 1024) ''B'' = Inl OverflowError" by (rule format_size_overflow)
  then show ?thesis by simp
qed

section \<open>Properties of \<^verbatim>\<open>print_filelist\<close>\<close>

lemmas fl_defs =
  print_filelist_def max_sizelen_def sort_key_of_def str_lower_def lower_char_def
  upper_letters_def lower_letters_def list_and_print_def

lemma size_lens_Inr:
  "(\<forall>f\<in>set fl. snd (snd f) \<noteq> None) \<Longrightarrow> \<exists>ls. size_lens fl = Inr ls \<and> length ls = length fl"
  by (induction fl) (auto split: option.splits sum.splits)

lemma size_lens_sizes:
  "size_lens fl = Inr ls \<Longrightarrow> \<forall>f\<in>set fl. snd (snd f) \<noteq> None"
  by (induction fl arbitrary: ls) (auto split: option.splits sum.splits)

lemma max_sizelen_Inr:
  "max_sizelen fl = Inr w \<Longrightarrow> fl \<noteq> [] \<and> (\<forall>f\<in>set fl. snd (snd f) \<noteq> None)"
  by (auto simp: max_sizelen_def dest: size_lens_sizes split: sum.splits list.splits)

lemma max_sizelen_ok:
  assumes "fl \<noteq> []" "\<forall>f\<in>set fl. snd (snd f) \<noteq> None"
  shows "\<exists>w. max_sizelen fl = Inr w"
proof -
  from size_lens_Inr [OF assms(2)] obtain ls where "size_lens fl = Inr ls" "length ls = length fl"
    by blast
  with assms(1) show ?thesis by (cases ls) (auto simp: max_sizelen_def)
qed

lemma print_rows_ok:
  "\<forall>f\<in>set fl. snd (snd f) \<noteq> None \<Longrightarrow>
   \<exists>rows. print_rows w fl = Inr rows \<and>
     list_all2 (\<lambda>f r. \<exists>s. snd (snd f) = Some s \<and> r = rjust w s @ '' '' @ fst f)
       (filter (\<lambda>f. fst f \<notin> {''.'', ''..''}) fl) rows"
proof (induction fl)
  case Nil
  then show ?case by simp
next
  case (Cons f fl)
  obtain n d z where f: "f = (n, d, z)" by (cases f) auto
  from Cons obtain rows where r: "print_rows w fl = Inr rows"
    "list_all2 (\<lambda>f r. \<exists>s. snd (snd f) = Some s \<and> r = rjust w s @ '' '' @ fst f)
       (filter (\<lambda>f. fst f \<notin> {''.'', ''..''}) fl) rows"
    by auto
  from Cons.prems f obtain s where z: "z = Some s" by auto
  show ?case using r by (auto simp: f z)
qed

lemma key_le:
  "sort_key_of a \<le> sort_key_of b \<Longrightarrow>
     (fst (snd b) \<longrightarrow> fst (snd a)) \<and>
     (fst (snd a) = fst (snd b) \<longrightarrow> str_lower (fst a) \<le> str_lower (fst b))"
  by (auto simp: sort_key_of_def less_eq_prod_def)

lemma listing_sorted:
  "sorted_wrt (\<lambda>a b. (fst (snd b) \<longrightarrow> fst (snd a)) \<and>
                     (fst (snd a) = fst (snd b) \<longrightarrow> str_lower (fst a) \<le> str_lower (fst b)))
     (filter P (sort_key sort_key_of fl))"
proof -
  have "sorted (map sort_key_of (filter P (sort_key sort_key_of fl)))"
    by (intro sorted_filter sorted_sort_key)
  then have "sorted_wrt (\<lambda>a b. sort_key_of a \<le> sort_key_of b) (filter P (sort_key sort_key_of fl))"
    by (simp add: sorted_map)
  then show ?thesis by (rule sorted_wrt_mono_rel [rotated]) (rule key_le)
qed

lemma print_filelist_rows:
  assumes "print_filelist fl = Inr rows"
  shows "\<exists>w es. mset es = filter_mset (\<lambda>f. fst f \<notin> {''.'', ''..''}) (mset fl) \<and>
     sorted_wrt (\<lambda>a b. (fst (snd b) \<longrightarrow> fst (snd a)) \<and>
                     (fst (snd a) = fst (snd b) \<longrightarrow> str_lower (fst a) \<le> str_lower (fst b))) es \<and>
     list_all2 (\<lambda>f r. \<exists>s. snd (snd f) = Some s \<and> r = rjust w s @ '' '' @ fst f) es rows"
proof -
  let ?fl = "sort_key sort_key_of fl"
  let ?es = "filter (\<lambda>f. fst f \<notin> {''.'', ''..''}) ?fl"
  from assms obtain w where w: "max_sizelen ?fl = Inr w" and p: "print_rows w ?fl = Inr rows"
    by (auto simp: print_filelist_def Let_def split: sum.splits)
  from max_sizelen_Inr [OF w] have "\<forall>f\<in>set ?fl. snd (snd f) \<noteq> None" by simp
  from print_rows_ok [OF this, of w] p
  have l: "list_all2 (\<lambda>f r. \<exists>s. snd (snd f) = Some s \<and> r = rjust w s @ '' '' @ fst f) ?es rows"
    by auto
  have m: "mset ?es = filter_mset (\<lambda>f. fst f \<notin> {''.'', ''..''}) (mset fl)"
    by simp
  from m listing_sorted l show ?thesis by blast
qed

lemma print_filelist_empty: "print_filelist [] = Inl ValueError"
  by (simp add: print_filelist_def max_sizelen_def)

lemma print_filelist_nonempty: "print_filelist fl = Inr rows \<Longrightarrow> fl \<noteq> []"
  by (auto simp: print_filelist_empty)

lemma print_filelist_ok:
  assumes "fl \<noteq> []" "\<forall>f\<in>set fl. snd (snd f) \<noteq> None"
  shows "\<exists>rows. print_filelist fl = Inr rows"
proof -
  let ?fl = "sort_key sort_key_of fl"
  have ne: "?fl \<noteq> []" using assms(1) by (metis length_sort length_0_conv)
  have al: "\<forall>f\<in>set ?fl. snd (snd f) \<noteq> None" using assms(2) by simp
  from max_sizelen_ok [OF ne al] obtain w where w: "max_sizelen ?fl = Inr w" by blast
  from print_rows_ok [OF al, of w] obtain rows where "print_rows w ?fl = Inr rows" by blast
  with w show ?thesis by (simp add: print_filelist_def)
qed

lemma lower_char_code:
  "(of_char (lower_char c) :: nat) =
     (if (65 \<le> (of_char c :: nat) \<and> (of_char c :: nat) \<le> 90) \<or>
         (192 \<le> (of_char c :: nat) \<and> (of_char c :: nat) \<le> 222 \<and> (of_char c :: nat) \<noteq> 215)
      then of_char c + 32 else of_char c)"
proof (cases c)
  case (Char b0 b1 b2 b3 b4 b5 b6 b7)
  show ?thesis unfolding Char
    by (cases b0; cases b1; cases b2; cases b3; cases b4; cases b5; cases b6; cases b7)
       (simp_all add: lower_char_def upper_letters_def lower_letters_def)
qed

lemma listing_example:
  "list_and_print
        [\<lparr>filename = ''b.txt'', isDirectory = False, file_size = 500\<rparr>,
         \<lparr>filename = ''A'', isDirectory = True, file_size = 0\<rparr>,
         \<lparr>filename = ''a.txt'', isDirectory = False, file_size = 2000\<rparr>]
       = Inr [''     - A'', ''2.0KiB a.txt'', ''500.0B b.txt'']"
  by (simp add: fl_defs fs_defs)

lemma listing_example_case:
  "list_and_print
        [\<lparr>filename = ''B.txt'', isDirectory = False, file_size = 500\<rparr>,
         \<lparr>filename = ''a'', isDirectory = True, file_size = 0\<rparr>,
         \<lparr>filename = [CHR 0xC9, CHR ''b''], isDirectory = False, file_size = 1\<rparr>,
         \<lparr>filename = ''a.txt'', isDirectory = False, file_size = 2000\<rparr>,
         \<lparr>filename = ''Z'', isDirectory = True, file_size = 0\<rparr>,
         \<lparr>filename = [CHR 0xE9, CHR ''a''], isDirectory = False, file_size = 1\<rparr>]
       = Inr [''     - a'', ''     - Z'', ''2.0KiB a.txt'', ''500.0B B.txt'',
              ''  1.0B '' @ [CHR 0xE9, CHR ''a''], ''  1.0B '' @ [CHR 0xC9, CHR ''b'']]"
  by (simp add: fl_defs fs_defs)

text \<open>
  Claim C4. Whatever batch \<^verbatim>\<open>print_filelist\<close> prints, the lines are those of the entries
  other than \<^verbatim>\<open>.\<close> and \<^verbatim>\<open>..\<close>, one line each (the size right-aligned in a common width
  \<open>w\<close>, a space, the name), in an order \<open>es\<close> that has every directory before every file
  and, among directories and among files, the lower-cased names ascending. Lower-casing
  is by character, and takes each upper-case letter (code points 65 to 90, and 192 to 222
  but 215) to the code point 32 above and keeps every other character, so that names
  differing in case only compare equal. The entries \<^verbatim>\<open>b.txt\<close> (file, 500), \<^verbatim>\<open>A\<close>
  (directory), \<^verbatim>\<open>a.txt\<close> (file, 2000) come out as \<^verbatim>\<open>A\<close>, \<^verbatim>\<open>a.txt\<close>, \<^verbatim>\<open>b.txt\<close>; and where
  the case decides, the files \<^verbatim>\<open>B.txt\<close>, U+00C9 \<^verbatim>\<open>b\<close>, \<^verbatim>\<open>a.txt\<close>, U+00E9 \<^verbatim>\<open>a\<close> and the
  directories \<^verbatim>\<open>a\<close>, \<^verbatim>\<open>Z\<close> come out as \<^verbatim>\<open>a\<close>, \<^verbatim>\<open>Z\<close>, \<^verbatim>\<open>a.txt\<close>, \<^verbatim>\<open>B.txt\<close>,
  U+00E9 \<^verbatim>\<open>a\<close>, U+00C9 \<^verbatim>\<open>b\<close>.
\<close>

theorem print_filelist_order:
  "(print_filelist fl = Inr rows \<longrightarrow>
      (\<exists>w es. mset es = filter_mset (\<lambda>f. fst f \<notin> {''.'', ''..''}) (mset fl) \<and>
         sorted_wrt (\<lambda>a b. (fst (snd b) \<longrightarrow> fst (snd a)) \<and>
                         (fst (snd a) = fst (snd b) \<longrightarrow> str_lower (fst a) \<le> str_lower (fst b))) es \<and>
         list_all2 (\<lambda>f r. \<exists>s. snd (snd f) = Some s \<and> r = rjust w s @ '' '' @ fst f) es rows))
   \<and> str_lower name = map lower_char name
   \<and> (of_char (lower_char c) :: nat) =
       (if (65 \<le> (of_char c :: nat) \<and> (of_char c :: nat) \<le> 90) \<or>
           (192 \<le> (of_char c :: nat) \<and> (of_char c :: nat) \<le> 222 \<and> (of_char c :: nat) \<noteq> 215)
        then of_char c + 32 else of_char c)
   \<and> list_and_print
        [\<lparr>filename = ''b.txt'', isDirectory = False, file_size = 500\<rparr>,
         \<lparr>filename = ''A'', isDirectory = True, file_size = 0\<rparr>,
         \<lparr>filename = ''a.txt'', isDirectory = False, file_size = 2000\<rparr>]
       = Inr [''     - A'', ''2.0KiB a.txt'', ''500.0B b.txt'']
   \<and> list_and_print
        [\<lparr>filename = ''B.txt'', isDirectory = False, file_size = 500\<rparr>,
         \<lparr>filename = ''a'', isDirectory = True, file_size = 0\<rparr>,
         \<lparr>filename = [CHR 0xC9, CHR ''b''], isDirectory = False, file_size = 1\<rparr>,
         \<lparr>filename = ''a.txt'', isDirectory = False, file_size = 2000\<rparr>,
         \<lparr>filename = ''Z'', isDirectory = True, file_size = 0\<rparr>,
         \<lparr>filename = [CHR 0xE9, CHR ''a''], isDirectory = False, file_size = 1\<rparr>]
       = Inr [''     - a'', ''     - Z'', ''2.0KiB a.txt'', ''500.0B B.txt'',
              ''  1.0B '' @ [CHR 0xE9, CHR ''a''], ''  1.0B '' @ [CHR 0xC9, CHR ''b'']]"
  using print_filelist_rows [of fl rows] lower_char_code [of c] listing_example
    listing_example_case
  by (simp only: str_lower_def) blast

theorem print_filelist_order_witness:
  "print_filelist [(''B.txt'', False, Some ''500.0B''), (''a'', True, Some ''-''),
                   (''a.txt'', False, Some ''2.0KiB''), (''Z'', True, Some ''-'')]
     = Inr [''     - a'', ''     - Z'', ''2.0KiB a.txt'', ''500.0B B.txt''] \<and>
   (\<exists>w es. mset es = filter_mset (\<lambda>f. fst f \<notin> {''.'', ''..''})
                (mset [(''B.txt'', False, Some ''500.0B''), (''a'', True, Some ''-''),
                       (''a.txt'', False, Some ''2.0KiB''), (''Z'', True, Some ''-'')]) \<and>
      sorted_wrt (\<lambda>a b. (fst (snd b) \<longrightarrow> fst (snd a)) \<and>
                      (fst (snd a) = fst (snd b) \<longrightarrow> str_lower (fst a) \<le> str_lower (fst b))) es \<and>
      list_all2 (\<lambda>f r. \<exists>s. snd (snd f) = Some s \<and> r = rjust w s @ '' '' @ fst f) es
        [''     - a'', ''     - Z'', ''2.0KiB a.txt'', ''500.0B B.txt''])
   \<and> str_lower ''B.txt'' = ''b.txt''
   \<and> (of_char (lower_char CHR ''B'') :: nat) = 98"
proof -
  have h: "print_filelist [(''B.txt'', False, Some ''500.0B''), (''a'', True, Some ''-''),
                   (''a.txt'', False, Some ''2.0KiB''), (''Z'', True, Some ''-'')]
     = Inr [''     - a'', ''     - Z'', ''2.0KiB a.txt'', ''500.0B B.txt'']"
    by (simp add: fl_defs rjust_def)
  have l: "map lower_char ''B.txt'' = ''b.txt''"
    by (simp add: lower_char_def upper_letters_def lower_letters_def)
  have o: "(of_char CHR ''B'' :: nat) = 66" by simp
  from print_filelist_order [of "[(''B.txt'', False, Some ''500.0B''), (''a'', True, Some ''-''),
                   (''a.txt'', False, Some ''2.0KiB''), (''Z'', True, Some ''-'')]"
      "[''     - a'', ''     - Z'', ''2.0KiB a.txt'', ''500.0B B.txt'']" "''B.txt''" "CHR ''B''"] h l o
  show ?thesis by (simp del: of_char_Char) 
qed

text \<open>
  Claim C9. On the empty list \<^verbatim>\<open>print_filelist\<close> raises \<^verbatim>\<open>ValueError\<close> (\<^verbatim>\<open>max\<close> of an
  empty sequence) and prints nothing; whenever it prints, the list was not empty; and
  it does print for every non-empty list whose entries all carry a size text.
\<close>

theorem print_filelist_empty_raises:
  "print_filelist [] = Inl ValueError
   \<and> (print_filelist fl = Inr rows \<longrightarrow> fl \<noteq> [])
   \<and> (fl \<noteq> [] \<and> (\<forall>f\<in>set fl. snd (snd f) \<noteq> None) \<longrightarrow> (\<exists>rows'. print_filelist fl = Inr rows'))"
  using print_filelist_empty print_filelist_nonempty [of fl rows] print_filelist_ok [of fl]
  by blast

theorem print_filelist_empty_raises_witness:
  "print_filelist [] = Inl ValueError
   \<and> print_filelist [(''a'', False, Some ''1.0B'')] = Inr [''1.0B a'']
   \<and> [(''a'', False, Some ''1.0B'')] \<noteq> ([] :: fileentry list)
   \<and> (\<exists>rows'. print_filelist [(''a'', False, Some ''1.0B'')] = Inr rows')"
proof -
  have h: "print_filelist [(''a'', False, Some ''1.0B'')] = Inr [''1.0B a'']"
    by (simp add: fl_defs rjust_def)
  from print_filelist_empty_raises [of "[(''a'', False, Some ''1.0B'')]" "[''1.0B a'']"] h
  show ?thesis by simp
qed

section \<open>Properties of the shell\<close>

lemmas run_defs =
  connect_def client_init_def init_state_def complete_config_def or_else_def resolve_ip_def
  and_then_def return_def raise_def py_print_def py_input_def py_getpass_def emit_def
  close_conn_def new_connection_def smb_connect_def get_attr_def smb_listPath_def
  change_dir_def status_name_def path_for_def DEFAULT_PORT_def DEFAULT_SERVICE_def

lemma example_init:
  "client_init example_env example_config Map.empty = (Inr (), example_state)"
  by (simp add: run_defs example_env_def example_config_def example_state_def)

subsection \<open>Statements that keep the session\<close>

lemma keeps_sessionI:
  assumes "\<And>s r s'. m s = (r, s') \<Longrightarrow>
     conn s' = conn s \<and> service s' = service s \<and> cur_dir s' = cur_dir s \<and>
     live s' = live s \<and> next_conn s' = next_conn s \<and>
     (\<exists>rest. trace s' = trace s @ rest \<and> (\<forall>ev\<in>set rest. \<not> session_event ev))"
  shows "keeps_session m"
  using assms unfolding keeps_session_def by blast

lemma keeps_sessionD:
  assumes "keeps_session m" "m s = (r, s')"
  shows "conn s' = conn s" "service s' = service s" "cur_dir s' = cur_dir s"
    "live s' = live s" "next_conn s' = next_conn s"
    "\<exists>rest. trace s' = trace s @ rest \<and> (\<forall>ev\<in>set rest. \<not> session_event ev)"
  using assms unfolding keeps_session_def by blast+

lemma keeps_and_then [intro]:
  assumes m: "keeps_session m" and f: "\<And>a. keeps_session (f a)"
  shows "keeps_session (and_then m f)"
proof (rule keeps_sessionI)
  fix s r s'
  assume run: "and_then m f s = (r, s')"
  obtain r1 s1 where m1: "m s = (r1, s1)" by (cases "m s") auto
  note k1 = keeps_sessionD [OF m m1]
  show "conn s' = conn s \<and> service s' = service s \<and> cur_dir s' = cur_dir s \<and>
     live s' = live s \<and> next_conn s' = next_conn s \<and>
     (\<exists>rest. trace s' = trace s @ rest \<and> (\<forall>ev\<in>set rest. \<not> session_event ev))"
  proof (cases r1)
    case (Inl e)
    with run m1 have "s' = s1" by (simp add: and_then_def)
    with k1 show ?thesis by simp
  next
    case (Inr a)
    with run m1 have f1: "f a s1 = (r, s')" by (simp add: and_then_def)
    note k2 = keeps_sessionD [OF f f1]
    from k1(6) k2(6) obtain rest1 rest2 where
      "trace s1 = trace s @ rest1" "\<forall>ev\<in>set rest1. \<not> session_event ev"
      "trace s' = trace s1 @ rest2" "\<forall>ev\<in>set rest2. \<not> session_event ev" by blast
    then have "trace s' = trace s @ (rest1 @ rest2) \<and> (\<forall>ev\<in>set (rest1 @ rest2). \<not> session_event ev)"
      by auto
    then have "\<exists>rest. trace s' = trace s @ rest \<and> (\<forall>ev\<in>set rest. \<not> session_event ev)" by blast
    with k1 k2 show ?thesis by simp
  qed
qed

lemma keeps_dep:
  assumes "\<And>x. keeps_session (m x)"
  shows "keeps_session (\<lambda>s. m (g s) s)"
  using assms unfolding keeps_session_def by blast

lemma keeps_if [intro]:
  "keeps_session m \<Longrightarrow> keeps_session n \<Longrightarrow> keeps_session (if b then m else n)"
  by simp

lemma keeps_return [intro, simp]: "keeps_session (return a)"
  by (rule keeps_sessionI) (auto simp: return_def)

lemma keeps_raise [intro, simp]: "keeps_session (raise e)"
  by (rule keeps_sessionI) (auto simp: raise_def)

lemma keeps_print [intro, simp]: "keeps_session (py_print line)"
  by (rule keeps_sessionI) (auto simp: py_print_def emit_def)

lemma keeps_input [intro, simp]: "keeps_session (py_input env prompt)"
  by (rule keeps_sessionI) (auto simp: py_input_def emit_def split: option.splits)

lemma keeps_getpass [intro, simp]: "keeps_session (py_getpass env)"
  by (rule keeps_sessionI) (auto simp: py_getpass_def emit_def split: option.splits)

lemma keeps_get_attr [intro, simp]: "keeps_session (get_attr field)"
  by (rule keeps_sessionI) (auto simp: get_attr_def split: option.splits)

lemma keeps_or_else [intro]: "keeps_session ask \<Longrightarrow> keeps_session (or_else v ask)"
  by (cases v) (simp_all add: or_else_def)

lemma keeps_emit_then:
  assumes "keeps_session m" "\<not> session_event ev"
  shows "keeps_session (\<lambda>s. m (emit ev s))"
proof (rule keeps_sessionI)
  fix s r s'
  assume "m (emit ev s) = (r, s')"
  note k = keeps_sessionD [OF assms(1) this]
  from k(6) obtain rest where "trace s' = trace s @ (ev # rest)" "\<forall>e\<in>set rest. \<not> session_event e"
    by (auto simp: emit_def)
  with assms(2) have "\<exists>rest. trace s' = trace s @ rest \<and> (\<forall>ev\<in>set rest. \<not> session_event ev)"
    by (intro exI [of _ "ev # rest"]) simp
  with k show "conn s' = conn s \<and> service s' = service s \<and> cur_dir s' = cur_dir s \<and>
     live s' = live s \<and> next_conn s' = next_conn s \<and>
     (\<exists>rest. trace s' = trace s @ rest \<and> (\<forall>ev\<in>set rest. \<not> session_event ev))"
    by (simp add: emit_def)
qed

lemma keeps_resolve_ip [intro, simp]: "keeps_session (resolve_ip env name)"
proof (rule keeps_sessionI)
  fix s r s'
  assume run: "resolve_ip env name s = (r, s')"
  let ?ask = "and_then
               (py_print ''[Error] Name resolution failed. Please enter the 3DS IP manually.'')
               (\<lambda>_. py_input env ''IP: '')"
  have ask: "keeps_session (\<lambda>s. ?ask (emit (QueryName name) s))"
    by (intro keeps_emit_then keeps_and_then) simp_all
  have one: "keeps_session (\<lambda>s. return ip (emit (QueryName name) s))" for ip :: string
    by (intro keeps_emit_then) simp_all
  show "conn s' = conn s \<and> service s' = service s \<and> cur_dir s' = cur_dir s \<and>
     live s' = live s \<and> next_conn s' = next_conn s \<and>
     (\<exists>rest. trace s' = trace s @ rest \<and> (\<forall>ev\<in>set rest. \<not> session_event ev))"
  proof (cases "\<exists>ip. queryName env (trace s) name = Some [ip]")
    case True
    then obtain ip where "queryName env (trace s) name = Some [ip]" by blast
    with run have "return ip (emit (QueryName name) s) = (r, s')"
      by (simp add: resolve_ip_def return_def)
    from keeps_sessionD [OF one this] show ?thesis by simp
  next
    case False
    with run have "?ask (emit (QueryName name) s) = (r, s')"
      by (auto simp: resolve_ip_def Let_def split: option.splits list.splits)
    from keeps_sessionD [OF ask this] show ?thesis by simp
  qed
qed

lemma keeps_complete_config [intro, simp]: "keeps_session (complete_config env config)"
  unfolding complete_config_def
  by (intro keeps_and_then keeps_or_else) simp_all

lemma keeps_smb_listPath [intro, simp]: "keeps_session (smb_listPath env path)"
  unfolding smb_listPath_def
  by (intro keeps_and_then keeps_get_attr keeps_sessionI) (auto simp: emit_def)

lemma keeps_smb_call [intro, simp]: "keeps_session (smb_call env req)"
  unfolding smb_call_def
  by (intro keeps_and_then keeps_get_attr keeps_sessionI) (auto simp: emit_def)

lemma keeps_path_for [intro, simp]: "keeps_session (path_for path)"
  unfolding path_for_def by (intro keeps_and_then) simp_all

lemma keeps_for_each [intro]:
  "(\<And>x. keeps_session (body x)) \<Longrightarrow> keeps_session (for_each body xs)"
  by (induction xs) (auto intro!: keeps_and_then)

lemma keeps_print_listing [intro, simp]: "keeps_session (print_listing resp)"
  unfolding print_listing_def by (cases "list_and_print resp") (auto intro!: keeps_for_each)

lemma connect_cases:
  assumes run: "connect env config s = (r, s')"
  defines "s0 \<equiv> (case conn s of None \<Rightarrow> s | Some c \<Rightarrow> emit (Close c) (s\<lparr>live := live s - {c}\<rparr>))"
  shows "(\<exists>e. complete_config env config s0 = (Inl e, s') \<and> r = Inl e) \<or>
    (\<exists>cfg s1 s2 n.
        complete_config env config s0 = (Inr cfg, s1) \<and> n = next_conn s1 \<and>
        s2 = emit (NewConnection n (fc_username cfg) (fc_password cfg) (fc_servername cfg))
               (s1\<lparr>conn := Some n, next_conn := Suc n\<rparr>) \<and>
        ((\<exists>e. connect_result env (trace s2) n (fc_serverip cfg) (fc_serverport cfg) = Inl e \<and>
              r = Inl e \<and> s' = emit (Connect n (fc_serverip cfg) (fc_serverport cfg)) s2) \<or>
         (\<exists>b. connect_result env (trace s2) n (fc_serverip cfg) (fc_serverport cfg) = Inr b \<and>
              r = Inr () \<and>
              s' = emit (Print (''Connected to '' @ fc_serverip cfg))
                     ((emit (Connect n (fc_serverip cfg) (fc_serverport cfg))
                         (s2\<lparr>live := insert n (live s2)\<rparr>))
                      \<lparr>service := Some (fc_service cfg), cur_dir := Some [sep]\<rparr>))))"
proof -
  have first: "(case conn s of None \<Rightarrow> return () s | Some c \<Rightarrow> close_conn c s) = (Inr (), s0)"
    by (simp add: s0_def return_def close_conn_def split: option.splits)
  obtain r1 s1 where cc: "complete_config env config s0 = (r1, s1)"
    by (cases "complete_config env config s0") auto
  show ?thesis
  proof (cases r1)
    case (Inl e)
    with run first cc show ?thesis by (simp add: connect_def and_then_def)
  next
    case (Inr cfg)
    with run first cc show ?thesis
      by (auto simp: connect_def and_then_def new_connection_def smb_connect_def emit_def
          return_def py_print_def split: sum.splits)
  qed
qed

lemma connect_trace:
  assumes run: "connect env config s = (r, s')"
  shows "\<exists>rest. trace s' = trace s @ (case conn s of None \<Rightarrow> [] | Some c \<Rightarrow> [Close c]) @ rest \<and>
           (\<forall>c. Close c \<notin> set rest)"
proof -
  define s0 where "s0 = (case conn s of None \<Rightarrow> s | Some c \<Rightarrow> emit (Close c) (s\<lparr>live := live s - {c}\<rparr>))"
  have t0: "trace s0 = trace s @ (case conn s of None \<Rightarrow> [] | Some c \<Rightarrow> [Close c])"
    by (simp add: s0_def emit_def split: option.splits)
  have nc: "\<And>rest. \<forall>ev\<in>set rest. \<not> session_event ev \<Longrightarrow> \<forall>c. Close c \<notin> set rest"
    by (metis session_event.simps(3))
  from connect_cases [OF run, folded s0_def] show ?thesis
  proof (elim disjE exE conjE)
    fix e assume c: "complete_config env config s0 = (Inl e, s')"
    from keeps_sessionD(6) [OF keeps_complete_config c] obtain rest where
      "trace s' = trace s0 @ rest" "\<forall>ev\<in>set rest. \<not> session_event ev" by blast
    with nc [of rest] show ?thesis by (auto simp: t0)
  next
    fix cfg s1 s2 n e
    assume c: "complete_config env config s0 = (Inr cfg, s1)"
      and s2: "s2 = emit (NewConnection n (fc_username cfg) (fc_password cfg) (fc_servername cfg))
               (s1\<lparr>conn := Some n, next_conn := Suc n\<rparr>)"
      and s': "s' = emit (Connect n (fc_serverip cfg) (fc_serverport cfg)) s2"
    from keeps_sessionD(6) [OF keeps_complete_config c] obtain rest where
      r: "trace s1 = trace s0 @ rest" "\<forall>ev\<in>set rest. \<not> session_event ev" by blast
    let ?rest = "rest @ [NewConnection n (fc_username cfg) (fc_password cfg) (fc_servername cfg),
       Connect n (fc_serverip cfg) (fc_serverport cfg)]"
    have "trace s' = trace s @ (case conn s of None \<Rightarrow> [] | Some c \<Rightarrow> [Close c]) @ ?rest"
      by (simp add: s' s2 emit_def r t0)
    moreover have "\<forall>c. Close c \<notin> set ?rest" using nc [OF r(2)] by simp
    ultimately show ?thesis by blast
  next
    fix cfg s1 s2 n b
    assume c: "complete_config env config s0 = (Inr cfg, s1)"
      and s2: "s2 = emit (NewConnection n (fc_username cfg) (fc_password cfg) (fc_servername cfg))
               (s1\<lparr>conn := Some n, next_conn := Suc n\<rparr>)"
      and s': "s' = emit (Print (''Connected to '' @ fc_serverip cfg))
                     ((emit (Connect n (fc_serverip cfg) (fc_serverport cfg))
                         (s2\<lparr>live := insert n (live s2)\<rparr>))
                      \<lparr>service := Some (fc_service cfg), cur_dir := Some [sep]\<rparr>)"
    from keeps_sessionD(6) [OF keeps_complete_config c] obtain rest where
      r: "trace s1 = trace s0 @ rest" "\<forall>ev\<in>set rest. \<not> session_event ev" by blast
    let ?rest = "rest @ [NewConnection n (fc_username cfg) (fc_password cfg) (fc_servername cfg),
       Connect n (fc_serverip cfg) (fc_serverport cfg), Print (''Connected to '' @ fc_serverip cfg)]"
    have "trace s' = trace s @ (case conn s of None \<Rightarrow> [] | Some c \<Rightarrow> [Close c]) @ ?rest"
      by (simp add: s' s2 emit_def r t0)
    moreover have "\<forall>c. Close c \<notin> set ?rest" using nc [OF r(2)] by simp
    ultimately show ?thesis by blast
  qed
qed

lemma connect_live:
  assumes run: "connect env config s = (r, s')" and inv: "live s \<subseteq> set_option (conn s)"
  shows "live s' \<subseteq> set_option (conn s')"
proof -
  define s0 where "s0 = (case conn s of None \<Rightarrow> s | Some c \<Rightarrow> emit (Close c) (s\<lparr>live := live s - {c}\<rparr>))"
  have l0: "live s0 = {}" "conn s0 = conn s"
    using inv by (auto simp: s0_def emit_def split: option.splits)
  from connect_cases [OF run, folded s0_def] show ?thesis
  proof (elim disjE exE conjE)
    fix e assume c: "complete_config env config s0 = (Inl e, s')"
    from keeps_sessionD(4) [OF keeps_complete_config c] l0 show ?thesis by simp
  next
    fix cfg s1 s2 n e
    assume c: "complete_config env config s0 = (Inr cfg, s1)"
      and s2: "s2 = emit (NewConnection n (fc_username cfg) (fc_password cfg) (fc_servername cfg))
               (s1\<lparr>conn := Some n, next_conn := Suc n\<rparr>)"
      and s': "s' = emit (Connect n (fc_serverip cfg) (fc_serverport cfg)) s2"
    from keeps_sessionD(4) [OF keeps_complete_config c] l0 show ?thesis
      by (simp add: s' s2 emit_def)
  next
    fix cfg s1 s2 n b
    assume c: "complete_config env config s0 = (Inr cfg, s1)"
      and s2: "s2 = emit (NewConnection n (fc_username cfg) (fc_password cfg) (fc_servername cfg))
               (s1\<lparr>conn := Some n, next_conn := Suc n\<rparr>)"
      and s': "s' = emit (Print (''Connected to '' @ fc_serverip cfg))
                     ((emit (Connect n (fc_serverip cfg) (fc_serverport cfg))
                         (s2\<lparr>live := insert n (live s2)\<rparr>))
                      \<lparr>service := Some (fc_service cfg), cur_dir := Some [sep]\<rparr>)"
    from keeps_sessionD(4) [OF keeps_complete_config c] l0 show ?thesis
      by (simp add: s' s2 emit_def)
  qed
qed

lemma connect_cursor:
  assumes run: "connect env config s = (r, s')"
  shows "(r = Inr () \<longrightarrow> cur_dir s' = Some [sep]) \<and> (r \<noteq> Inr () \<longrightarrow> cur_dir s' = cur_dir s)"
proof -
  define s0 where "s0 = (case conn s of None \<Rightarrow> s | Some c \<Rightarrow> emit (Close c) (s\<lparr>live := live s - {c}\<rparr>))"
  have l0: "cur_dir s0 = cur_dir s"
    by (auto simp: s0_def emit_def split: option.splits)
  from connect_cases [OF run, folded s0_def] show ?thesis
  proof (elim disjE exE conjE)
    fix e assume c: "complete_config env config s0 = (Inl e, s')" and "r = Inl e"
    with keeps_sessionD(3) [OF keeps_complete_config c] l0 show ?thesis by simp
  next
    fix cfg s1 s2 n e
    assume c: "complete_config env config s0 = (Inr cfg, s1)"
      and s2: "s2 = emit (NewConnection n (fc_username cfg) (fc_password cfg) (fc_servername cfg))
               (s1\<lparr>conn := Some n, next_conn := Suc n\<rparr>)"
      and s': "s' = emit (Connect n (fc_serverip cfg) (fc_serverport cfg)) s2" and "r = Inl e"
    with keeps_sessionD(3) [OF keeps_complete_config c] l0 show ?thesis
      by (simp add: s' s2 emit_def)
  next
    fix cfg s1 s2 n b
    assume s': "s' = emit (Print (''Connected to '' @ fc_serverip cfg))
                     ((emit (Connect n (fc_serverip cfg) (fc_serverport cfg))
                         (s2\<lparr>live := insert n (live s2)\<rparr>))
                      \<lparr>service := Some (fc_service cfg), cur_dir := Some [sep]\<rparr>)" and "r = Inr ()"
    then show ?thesis by (simp add: emit_def)
  qed
qed

lemma connect_attrs:
  assumes run: "connect env config s = (Inr (), s')"
  shows "\<exists>c sv. conn s' = Some c \<and> service s' = Some sv \<and> cur_dir s' = Some [sep]"
  using connect_cases [OF run] by (auto simp: emit_def)

lemma example_reconnect:
  "connect example_env example_config example_state = (Inr (), example_reconnected)"
  by (simp add: run_defs example_env_def example_config_def example_state_def example_reconnected_def)

lemmas np_defs =
  normpath_def join_def join_step_def join_relative_def splitdrive_def replace_altsep_def
  find_sep_def unc_prefix_def str_upper_def upper_char_def str_lower_def lower_char_def
  upper_letters_def lower_letters_def seps_def
  endswith_sep_def normpath_loop.simps basename_def

lemma change_dir_cases:
  assumes "conn s = Some c" "service s = Some sv"
  shows "change_dir env path s =
     (case listPath env (trace s) c sv path of
        Inr resp \<Rightarrow> (Inr (), (emit (Call c (ListPath sv path)) s)\<lparr>cur_dir := Some path\<rparr>)
      | Inl (OperationFailure message) \<Rightarrow> (Inl AttributeError, emit (Call c (ListPath sv path)) s)
      | Inl e \<Rightarrow> (Inl e, emit (Call c (ListPath sv path)) s))"
  using assms
  by (simp add: change_dir_def smb_listPath_def and_then_def get_attr_def status_name_def
      raise_def split: sum.splits error.splits)

lemma change_dir_cursor:
  assumes "conn s = Some c" "service s = Some sv"
  shows "(\<forall>resp. listPath env (trace s) c sv path = Inr resp \<longrightarrow>
            change_dir env path s =
              (Inr (), (emit (Call c (ListPath sv path)) s)\<lparr>cur_dir := Some path\<rparr>))
       \<and> (\<forall>e. listPath env (trace s) c sv path = Inl e \<longrightarrow>
            cur_dir (snd (change_dir env path s)) = cur_dir s)
       \<and> (\<forall>message. listPath env (trace s) c sv path = Inl (OperationFailure message) \<longrightarrow>
            change_dir env path s = (Inl AttributeError, emit (Call c (ListPath sv path)) s))"
  by (auto simp: change_dir_cases [OF assms] emit_def split: error.splits)

text \<open>
  Claim C2. The cursor part of the claim holds: \<^verbatim>\<open>_change_dir\<close> sets the cursor only after a
  \<^verbatim>\<open>listPath\<close> call that succeeded, and leaves it when the call raises (the lemma above).
  The other part does not hold of the code. In the example world the server refuses
  \<^verbatim>\<open>\missing\<close> with \<^verbatim>\<open>OperationFailure\<close>; on \<^verbatim>\<open>cd missing\<close> the handler raises
  \<^verbatim>\<open>AttributeError\<close> at \<^verbatim>\<open>e.status\<close>, nothing is printed, the exception leaves the command
  loop, and the \<^verbatim>\<open>pwd\<close> typed next is never run. The cursor is what it was.
\<close>

theorem change_dir_failure_is_fatal:
  "listPath example_env (trace example_state) 0 ''microSD'' (sep # ''missing'')
     = Inl (OperationFailure ''STATUS_OBJECT_NAME_NOT_FOUND'')
   \<and> cmdloop example_env [Cd [''missing''], Pwd] example_state
     = (Inl AttributeError,
        example_state\<lparr>trace := trace example_state @
           [Call 0 (ListPath ''microSD'' (sep # ''missing''))]\<rparr>)
   \<and> cur_dir (snd (cmdloop example_env [Cd [''missing''], Pwd] example_state))
     = cur_dir example_state"
proof -
  have n: "normpath (join [sep] [''missing'']) = sep # ''missing''" by (simp add: np_defs)
  have c: "cmdloop example_env [Cd [''missing''], Pwd] example_state
     = (Inl AttributeError,
        example_state\<lparr>trace := trace example_state @
           [Call 0 (ListPath ''microSD'' (sep # ''missing''))]\<rparr>)"
    by (simp add: unit_cmd_def do_cd_def run_defs n example_env_def example_state_def)
  show ?thesis unfolding c by (simp add: example_env_def)
qed

lemma download_failed:
  assumes "conn s = Some c" "service s = Some sv" "open_result env (trace s) dest = None"
    and "retrieveFile env (trace s @ [OpenWrite dest]) c sv src = (written, Some e)"
  shows "download env src dest s =
     (Inl e, s\<lparr>files := (files s)(dest \<mapsto> written),
               trace := trace s @ [OpenWrite dest, Call c (RetrieveFile sv src), CloseFile dest]\<rparr>)"
  using assms
  by (simp add: download_def and_then_def get_attr_def return_def emit_def Let_def)

text \<open>
  Claim C8. A \<^verbatim>\<open>get\<close> with one or two arguments whose \<^verbatim>\<open>open\<close> succeeds and whose
  \<^verbatim>\<open>retrieveFile\<close> raises after having written the bytes \<open>written\<close> ends with that
  exception and leaves the local file holding exactly \<open>written\<close>: the trace shows the
  file opened for writing (created or truncated) before the one \<^verbatim>\<open>retrieveFile\<close> call,
  then closed, and nothing after (no second attempt, no removal).
\<close>

theorem get_partial_artifact:
  assumes "cur_dir s = Some cur" "conn s = Some c" "service s = Some sv"
    and "args = [a] \<and> name = basename (normpath (join cur [a])) \<or> args = [a, name]"
    and "src = normpath (join cur [a])" "dest = lpath_for env (trace s) name"
    and "open_result env (trace s) dest = None"
    and "retrieveFile env (trace s @ [OpenWrite dest]) c sv src = (written, Some e)"
  shows "do_get env args s =
           (Inl e, s\<lparr>files := (files s)(dest \<mapsto> written),
                     trace := trace s @ [OpenWrite dest, Call c (RetrieveFile sv src), CloseFile dest]\<rparr>)
         \<and> files (snd (do_get env args s)) dest = Some written"
proof -
  have p: "path_for a s = (Inr src, s)"
    using assms(1,5) by (simp add: path_for_def and_then_def get_attr_def return_def)
  have d: "download env src dest s =
     (Inl e, s\<lparr>files := (files s)(dest \<mapsto> written),
               trace := trace s @ [OpenWrite dest, Call c (RetrieveFile sv src), CloseFile dest]\<rparr>)"
    using assms(2,3,7,8) by (rule download_failed)
  from assms(4) have "do_get env args s = download env src dest s"
  proof
    assume "args = [a] \<and> name = basename (normpath (join cur [a]))"
    then show ?thesis using p assms(5,6) by (simp add: do_get_def and_then_def)
  next
    assume "args = [a, name]"
    then show ?thesis using p assms(5,6) by (simp add: do_get_def and_then_def)
  qed
  with d show ?thesis by simp
qed

theorem get_partial_artifact_witness:
  "do_get example_env [''a.bin''] example_state =
     (Inl (ConnectionError ''timeout''),
      example_state\<lparr>files := (files example_state)(''/home/user/a.bin'' \<mapsto> [1, 2, 3]),
        trace := trace example_state @
          [OpenWrite ''/home/user/a.bin'', Call 0 (RetrieveFile ''microSD'' (sep # ''a.bin'')),
           CloseFile ''/home/user/a.bin'']\<rparr>)
   \<and> files (snd (do_get example_env [''a.bin''] example_state)) ''/home/user/a.bin'' = Some [1, 2, 3]"
proof -
  have n: "normpath (join [sep] [''a.bin'']) = sep # ''a.bin''" by (simp add: np_defs)
  have b: "basename (sep # ''a.bin'') = ''a.bin''" by (simp add: np_defs)
  have "do_get example_env [''a.bin''] example_state =
     (Inl (ConnectionError ''timeout''),
      example_state\<lparr>files := (files example_state)(''/home/user/a.bin'' \<mapsto> [1, 2, 3]),
        trace := trace example_state @
          [OpenWrite ''/home/user/a.bin'', Call 0 (RetrieveFile ''microSD'' (sep # ''a.bin'')),
           CloseFile ''/home/user/a.bin'']\<rparr>)
   \<and> files (snd (do_get example_env [''a.bin''] example_state)) ''/home/user/a.bin'' = Some [1, 2, 3]"
    by (rule get_partial_artifact [where cur = "[sep]" and a = "''a.bin''" and name = "''a.bin''"
          and c = 0 and sv = "''microSD''"])
       (simp_all add: example_state_def example_env_def n b)
  then show ?thesis .
qed

lemma resolve_ip_failed:
  assumes "queryName env (trace s) name = None \<or> queryName env (trace s) name = Some [] \<or>
           (\<exists>ips. queryName env (trace s) name = Some ips \<and> 1 < length ips)"
  shows "resolve_ip env name s =
     (case input_line env (trace s @ [QueryName name,
              Print ''[Error] Name resolution failed. Please enter the 3DS IP manually.'']) of
        None \<Rightarrow> Inl EOFError | Some ip \<Rightarrow> Inr ip,
      s\<lparr>trace := trace s @ [QueryName name,
              Print ''[Error] Name resolution failed. Please enter the 3DS IP manually.'',
              Input ''IP: '']\<rparr>)"
proof -
  have "resolve_ip env name s =
     and_then (py_print ''[Error] Name resolution failed. Please enter the 3DS IP manually.'')
               (\<lambda>_. py_input env ''IP: '') (emit (QueryName name) s)"
    using assms by (auto simp: resolve_ip_def Let_def split: option.splits list.splits)
  then show ?thesis
    by (simp add: and_then_def py_print_def py_input_def emit_def split: option.splits)
qed

lemma complete_config_failed:
  assumes "servername config = Some name" "username config = Some user"
    "password config = Some pw" "serverip config = None"
    and "queryName env (trace s) name = None \<or> queryName env (trace s) name = Some [] \<or>
           (\<exists>ips. queryName env (trace s) name = Some ips \<and> 1 < length ips)"
  shows "complete_config env config s =
     (case input_line env (trace s @ [QueryName name,
              Print ''[Error] Name resolution failed. Please enter the 3DS IP manually.'']) of
        None \<Rightarrow> Inl EOFError
      | Some ip \<Rightarrow>
          Inr \<lparr>fc_servername = name, fc_username = user, fc_password = pw, fc_serverip = ip,
               fc_serverport = (case serverport config of None \<Rightarrow> DEFAULT_PORT | Some p \<Rightarrow> p),
               fc_service = (case share config of None \<Rightarrow> DEFAULT_SERVICE | Some sv \<Rightarrow> sv)\<rparr>,
      s\<lparr>trace := trace s @ [QueryName name,
              Print ''[Error] Name resolution failed. Please enter the 3DS IP manually.'',
              Input ''IP: '']\<rparr>)"
  using assms(1-4) resolve_ip_failed [OF assms(5)]
  by (simp add: complete_config_def or_else_def and_then_def return_def split: option.splits)

text \<open>
  Claim C1, as the code has it. With name, user and password given, no address, and a
  name lookup that times out or returns no address or several, \<^verbatim>\<open>_connect\<close> prints that
  the resolution failed and asks for the address. At end of input it raises
  \<^verbatim>\<open>EOFError\<close>, having attempted no connection. Otherwise it creates the connection
  object and calls \<^verbatim>\<open>connect\<close> on the address typed, and ends as that call does.
\<close>

theorem connect_resolution_fallback:
  assumes "servername config = Some name" "username config = Some user"
    "password config = Some pw" "serverip config = None" "conn s = None"
    and "queryName env (trace s) name = None \<or> queryName env (trace s) name = Some [] \<or>
           (\<exists>ips. queryName env (trace s) name = Some ips \<and> 1 < length ips)"
    and "asked = trace s @ [QueryName name,
              Print ''[Error] Name resolution failed. Please enter the 3DS IP manually.'']"
    and "port = (case serverport config of None \<Rightarrow> DEFAULT_PORT | Some p \<Rightarrow> p)"
  shows "(input_line env asked = None \<longrightarrow>
            connect env config s = (Inl EOFError, s\<lparr>trace := asked @ [Input ''IP: '']\<rparr>))
       \<and> (\<forall>ip. input_line env asked = Some ip \<longrightarrow>
            (\<exists>rest. trace (snd (connect env config s)) =
               asked @ [Input ''IP: '', NewConnection (next_conn s) user pw name,
                        Connect (next_conn s) ip port] @ rest) \<and>
            fst (connect env config s) =
              (case connect_result env
                      (asked @ [Input ''IP: '', NewConnection (next_conn s) user pw name])
                      (next_conn s) ip port of
                 Inl e \<Rightarrow> Inl e
               | Inr authenticated \<Rightarrow> Inr ()))"
proof (intro conjI allI impI)
  assume "input_line env asked = None"
  then show "connect env config s = (Inl EOFError, s\<lparr>trace := asked @ [Input ''IP: '']\<rparr>)"
    using assms(5,7) complete_config_failed [OF assms(1-4,6)]
    by (simp add: connect_def and_then_def return_def)
next
  fix ip
  assume ip: "input_line env asked = Some ip"
  let ?cfg = "\<lparr>fc_servername = name, fc_username = user, fc_password = pw, fc_serverip = ip,
               fc_serverport = port,
               fc_service = (case share config of None \<Rightarrow> DEFAULT_SERVICE | Some sv \<Rightarrow> sv)\<rparr>"
  have cc: "complete_config env config s = (Inr ?cfg, s\<lparr>trace := asked @ [Input ''IP: '']\<rparr>)"
    using ip assms(7,8) complete_config_failed [OF assms(1-4,6)] by simp
  have both: "(\<exists>rest. trace (snd (connect env config s)) =
               asked @ [Input ''IP: '', NewConnection (next_conn s) user pw name,
                        Connect (next_conn s) ip port] @ rest) \<and>
            fst (connect env config s) =
              (case connect_result env
                      (asked @ [Input ''IP: '', NewConnection (next_conn s) user pw name])
                      (next_conn s) ip port of
                 Inl e \<Rightarrow> Inl e
               | Inr authenticated \<Rightarrow> Inr ())"
    using assms(5) cc
    by (cases "connect_result env
                      (asked @ [Input ''IP: '', NewConnection (next_conn s) user pw name])
                      (next_conn s) ip port")
       (simp_all add: connect_def and_then_def return_def new_connection_def smb_connect_def
          emit_def py_print_def)
  from both show "\<exists>rest. trace (snd (connect env config s)) =
               asked @ [Input ''IP: '', NewConnection (next_conn s) user pw name,
                        Connect (next_conn s) ip port] @ rest" by blast
  from both show "fst (connect env config s) =
              (case connect_result env
                      (asked @ [Input ''IP: '', NewConnection (next_conn s) user pw name])
                      (next_conn s) ip port of
                 Inl e \<Rightarrow> Inl e
               | Inr authenticated \<Rightarrow> Inr ())" by blast
qed

theorem connect_resolution_fallback_witness:
  "servername example_config = Some ''3ds'' \<and> username example_config = Some ''user''
   \<and> password example_config = Some ''secret'' \<and> serverip example_config = None
   \<and> conn (init_state Map.empty) = None
   \<and> queryName example_env (trace (init_state Map.empty)) ''3ds'' = Some []
   \<and> input_line example_env
        [QueryName ''3ds'',
         Print ''[Error] Name resolution failed. Please enter the 3DS IP manually.'']
       = Some ''10.0.0.5''
   \<and> (\<exists>rest. trace (snd (connect example_env example_config (init_state Map.empty))) =
         [QueryName ''3ds'',
          Print ''[Error] Name resolution failed. Please enter the 3DS IP manually.'',
          Input ''IP: '', NewConnection 0 ''user'' ''secret'' ''3ds'',
          Connect 0 ''10.0.0.5'' 139] @ rest)
   \<and> fst (connect example_env example_config (init_state Map.empty)) = Inr ()"
proof -
  have h: "servername example_config = Some ''3ds''" "username example_config = Some ''user''"
    "password example_config = Some ''secret''" "serverip example_config = None"
    "conn (init_state Map.empty) = None"
    by (simp_all add: example_config_def init_state_def)
  have q: "queryName example_env (trace (init_state Map.empty)) ''3ds'' = None \<or>
      queryName example_env (trace (init_state Map.empty)) ''3ds'' = Some [] \<or>
      (\<exists>ips. queryName example_env (trace (init_state Map.empty)) ''3ds'' = Some ips \<and> 1 < length ips)"
    by (simp add: example_env_def)
  from connect_resolution_fallback [OF h q refl refl]
  show ?thesis
    by (simp add: example_env_def example_config_def init_state_def DEFAULT_PORT_def)
qed

text \<open>The claim as worded fails in the example world: the lookup finds nothing, and the
  constructor returns normally after a \<^verbatim>\<open>connect\<close> to the address typed.\<close>

theorem connect_resolution_counterexample:
  "serverip example_config = None
   \<and> queryName example_env [] ''3ds'' = Some []
   \<and> client_init example_env example_config Map.empty = (Inr (), example_state)
   \<and> Connect 0 ''10.0.0.5'' 139 \<in> set (trace example_state)"
  using example_init by (simp add: example_config_def example_env_def example_state_def)

section \<open>Properties of path resolution\<close>

lemma find_sep_Some:
  assumes "find_sep s start = Some i"
  shows "start \<le> i" "i < length s" "s ! i = sep"
proof -
  let ?r = "drop start s"
  let ?k = "length (takeWhile (\<lambda>c. c \<noteq> sep) ?r)"
  from assms have mem: "sep \<in> set ?r" and i: "i = start + ?k"
    by (auto simp: find_sep_def Let_def split: if_splits)
  show "start \<le> i" using i by simp
  have "?k \<noteq> length ?r"
  proof
    assume "?k = length ?r"
    then have "takeWhile (\<lambda>c. c \<noteq> sep) ?r = ?r"
      using takeWhile_eq_take [of "\<lambda>c. c \<noteq> sep" ?r] by simp
    then have "\<forall>x\<in>set ?r. x \<noteq> sep" by (simp only: takeWhile_eq_all_conv)
    with mem show False by blast
  qed
  then have k: "?k < length ?r"
    using length_takeWhile_le [of "\<lambda>c. c \<noteq> sep" ?r] by linarith
  then show "i < length s" using i by simp
  have "?r ! ?k = sep" using nth_length_takeWhile [OF k] by simp
  then show "s ! i = sep" using k i by (simp add: add.commute)
qed

lemma take1_drop1: "2 \<le> length xs \<Longrightarrow> take 1 (drop 1 xs) = [xs ! 1]"
  by (cases xs; cases "tl xs") auto

lemma take2: "2 \<le> length xs \<Longrightarrow> take 2 xs = [xs ! 0, xs ! 1]"
  by (cases xs; cases "tl xs") (auto simp: numeral_2_eq_2)

lemma replace_altsep_length [simp]: "length (replace_altsep p) = length p"
  by (simp add: replace_altsep_def)

lemma replace_altsep_nth:
  "i < length p \<Longrightarrow> replace_altsep p ! i = sep \<longleftrightarrow> p ! i \<in> seps"
  by (auto simp: replace_altsep_def seps_def)

lemma replace_altsep_colon:
  "i < length p \<Longrightarrow> replace_altsep p ! i = colon \<longleftrightarrow> p ! i = colon"
  by (auto simp: replace_altsep_def)

lemma splitdrive_append: "fst (splitdrive p) @ snd (splitdrive p) = p"
  by (simp add: splitdrive_def Let_def split: option.splits)

lemma splitdrive_cases:
  assumes "fst (splitdrive p) \<noteq> []" "snd (splitdrive p) \<noteq> []" "hd (snd (splitdrive p)) \<notin> seps"
  shows "last (fst (splitdrive p)) = colon"
proof -
  let ?n = "replace_altsep p"
  from assms(1) have len: "2 \<le> length p" by (auto simp: splitdrive_def split: if_splits)
  show ?thesis
  proof (cases "take 2 ?n = [sep, sep]")
    case True
    let ?start = "if str_upper (take 8 ?n) = unc_prefix then 8 else 2"
    show ?thesis
    proof (cases "find_sep ?n ?start")
      case None
      with True len assms(2) show ?thesis by (simp add: splitdrive_def Let_def)
    next
      case (Some index)
      show ?thesis
      proof (cases "find_sep ?n (index + 1)")
        case None
        with True Some len assms(2) show ?thesis by (simp add: splitdrive_def Let_def)
      next
        case (Some index2)
        from find_sep_Some [OF Some] have i2: "index2 < length p" "?n ! index2 = sep" by simp_all
        then have "p ! index2 \<in> seps" by (simp add: replace_altsep_nth)
        moreover have "snd (splitdrive p) = drop index2 p"
          using True \<open>find_sep ?n ?start = Some index\<close> Some len by (simp add: splitdrive_def Let_def)
        ultimately have "hd (snd (splitdrive p)) \<in> seps" using i2(1) by (simp add: hd_drop_conv_nth)
        with assms(3) show ?thesis by simp
      qed
    qed
  next
    case False
    with assms(1) len have c: "take 1 (drop 1 ?n) = [colon]" and d: "fst (splitdrive p) = take 2 p"
      by (auto simp: splitdrive_def Let_def split: if_splits)
    from c len have "?n ! 1 = colon" using take1_drop1 [of ?n] by simp
    then have "p ! 1 = colon" using len by (simp add: replace_altsep_colon)
    moreover have "last (take 2 p) = p ! 1" using len by (simp add: take2)
    ultimately show ?thesis by (simp add: d)
  qed
qed

lemma str_lower_Nil [simp]: "str_lower s = [] \<longleftrightarrow> s = []"
  by (simp add: str_lower_def)

lemma join_absolute:
  assumes cur: "fst (splitdrive cur) = []" and f: "f \<noteq> []" "hd f \<in> seps"
  shows "join cur [f] = f"
proof -
  let ?pd = "fst (splitdrive f)" and ?pp = "snd (splitdrive f)"
  have app: "?pd @ ?pp = f" by (rule splitdrive_append)
  have res: "fold join_step [f] (splitdrive cur) = (?pd, ?pp)"
  proof (cases "?pp \<noteq> [] \<and> hd ?pp \<in> seps")
    case True
    then show ?thesis using cur by (simp add: join_step_def Let_def)
  next
    case False
    have "?pd \<noteq> []"
    proof
      assume "?pd = []"
      with app have "?pp = f" by simp
      with f False show False by simp
    qed
    then have "str_lower ?pd \<noteq> str_lower []" by (simp add: str_lower_def)
    with False \<open>?pd \<noteq> []\<close> show ?thesis using cur by (simp add: join_step_def Let_def)
  qed
  have "\<not> (?pp \<noteq> [] \<and> hd ?pp \<notin> seps \<and> ?pd \<noteq> [] \<and> last ?pd \<noteq> colon)"
    using splitdrive_cases [of f] by blast
  then have "join cur [f] = ?pd @ ?pp" unfolding join_def Let_def res by auto
  with app show ?thesis by simp
qed

subsection \<open>What \<^verbatim>\<open>normpath\<close> returns on a path without drive\<close>

lemma str_split_nonempty [simp]: "str_split s \<noteq> []"
  by (induction s) (auto split: list.splits)

lemma str_split_no_sep: "c \<in> set (str_split s) \<Longrightarrow> sep \<notin> set c"
  by (induction s arbitrary: c) (auto split: list.splits if_splits)

lemma str_split_subset: "c \<in> set (str_split s) \<Longrightarrow> set c \<subseteq> set s"
proof (induction s arbitrary: c)
  case Nil
  then show ?case by simp
next
  case (Cons x xs)
  obtain w ws where sp: "str_split xs = w # ws" by (cases "str_split xs") auto
  then have w: "set w \<subseteq> set xs" using Cons.IH [of w] by simp
  show ?case
  proof (cases "x = sep")
    case True
    with Cons.prems have "c = [] \<or> c \<in> set (str_split xs)" by simp
    then show ?thesis using Cons.IH [of c] by auto
  next
    case False
    with Cons.prems sp have "c = x # w \<or> c \<in> set ws" by simp
    then show ?thesis using Cons.IH [of c] w sp by auto
  qed
qed

lemma str_split_plain: "sep \<notin> set x \<Longrightarrow> str_split x = [x]"
  by (induction x) auto

lemma str_split_append: "sep \<notin> set x \<Longrightarrow> str_split (x @ sep # rest) = x # str_split rest"
  by (induction x) auto

lemma str_split_join:
  "comps \<noteq> [] \<Longrightarrow> \<forall>c\<in>set comps. sep \<notin> set c \<Longrightarrow> str_split (str_join comps) = comps"
  by (induction comps rule: str_join.induct) (simp_all add: str_split_plain str_split_append)

lemma set_str_join: "set (str_join comps) \<subseteq> (\<Union>c\<in>set comps. set c) \<union> {sep}"
  by (induction comps rule: str_join.induct) auto

lemma loop_unfold1:
  "\<not> i < length comps \<Longrightarrow> normpath_loop prefix comps i = comps"
  by (subst normpath_loop.simps) simp

lemma loop_unfold2:
  "i < length comps \<Longrightarrow> comps ! i = [] \<or> comps ! i = ''.'' \<Longrightarrow>
     normpath_loop prefix comps i = normpath_loop prefix (take i comps @ drop (Suc i) comps) i"
  by (subst normpath_loop.simps) simp

lemma loop_unfold3:
  "i < length comps \<Longrightarrow> \<not> (comps ! i = [] \<or> comps ! i = ''.'') \<Longrightarrow> comps ! i = ''..'' \<Longrightarrow>
     0 < i \<and> comps ! (i - 1) \<noteq> ''..'' \<Longrightarrow>
     normpath_loop prefix comps i =
       normpath_loop prefix (take (i - 1) comps @ drop (Suc i) comps) (i - 1)"
  by (subst normpath_loop.simps) simp

lemma loop_unfold4:
  "i < length comps \<Longrightarrow> \<not> (comps ! i = [] \<or> comps ! i = ''.'') \<Longrightarrow> comps ! i = ''..'' \<Longrightarrow>
     \<not> (0 < i \<and> comps ! (i - 1) \<noteq> ''..'') \<Longrightarrow> i = 0 \<and> endswith_sep prefix \<Longrightarrow>
     normpath_loop prefix comps i = normpath_loop prefix (take i comps @ drop (Suc i) comps) i"
  by (subst normpath_loop.simps) simp

lemma loop_unfold5:
  "i < length comps \<Longrightarrow> \<not> (comps ! i = [] \<or> comps ! i = ''.'') \<Longrightarrow> comps ! i = ''..'' \<Longrightarrow>
     \<not> (0 < i \<and> comps ! (i - 1) \<noteq> ''..'') \<Longrightarrow> \<not> (i = 0 \<and> endswith_sep prefix) \<Longrightarrow>
     normpath_loop prefix comps i = normpath_loop prefix comps (Suc i)"
  by (subst normpath_loop.simps) auto

lemma loop_unfold6:
  "i < length comps \<Longrightarrow> \<not> (comps ! i = [] \<or> comps ! i = ''.'') \<Longrightarrow> comps ! i \<noteq> ''..'' \<Longrightarrow>
     normpath_loop prefix comps i = normpath_loop prefix comps (Suc i)"
  by (subst normpath_loop.simps) simp

lemmas loop_unfold = loop_unfold1 loop_unfold2 loop_unfold3 loop_unfold4 loop_unfold5 loop_unfold6

lemma loop_subset: "set (normpath_loop prefix comps i) \<subseteq> set comps"
proof (induction prefix comps i rule: normpath_loop.induct)
  case (1 prefix comps i)
  have d1: "set (take i comps @ drop (Suc i) comps) \<subseteq> set comps"
    using set_take_subset [of i comps] set_drop_subset [of "Suc i" comps] by auto
  have d2: "set (take (i - 1) comps @ drop (Suc i) comps) \<subseteq> set comps"
    using set_take_subset [of "i - 1" comps] set_drop_subset [of "Suc i" comps] by auto
  show ?case
  proof (cases "i < length comps")
    case False
    then show ?thesis by (simp add: loop_unfold(1))
  next
    case lt: True
    show ?thesis
    proof (cases "comps ! i = [] \<or> comps ! i = ''.''")
      case True
      from "1.IH"(1) [OF lt True] d1 show ?thesis
        unfolding loop_unfold(2) [OF lt True] by (rule subset_trans)
    next
      case nb: False
      show ?thesis
      proof (cases "comps ! i = ''..''")
        case dd: True
        show ?thesis
        proof (cases "0 < i \<and> comps ! (i - 1) \<noteq> ''..''")
          case True
          from "1.IH"(2) [OF lt nb dd True] d2 show ?thesis
            unfolding loop_unfold(3) [OF lt nb dd True] by (rule subset_trans)
        next
          case np: False
          show ?thesis
          proof (cases "i = 0 \<and> endswith_sep prefix")
            case True
            from "1.IH"(3) [OF lt nb dd np True] d1 show ?thesis
              unfolding loop_unfold(4) [OF lt nb dd np True] by (rule subset_trans)
          next
            case False
            from "1.IH"(4) [OF lt nb dd np False] show ?thesis
              unfolding loop_unfold(5) [OF lt nb dd np False] .
          qed
        qed
      next
        case False
        from "1.IH"(5) [OF lt nb False] show ?thesis
          unfolding loop_unfold(6) [OF lt nb False] .
      qed
    qed
  qed
qed

lemma loop_clean:
  "endswith_sep prefix \<Longrightarrow> i \<le> length comps \<Longrightarrow> \<forall>j<i. \<not> bad_comp (comps ! j) \<Longrightarrow>
   \<forall>c\<in>set (normpath_loop prefix comps i). \<not> bad_comp c"
proof (induction prefix comps i rule: normpath_loop.induct)
  case (1 prefix comps i)
  note es = "1.prems"(1) and le = "1.prems"(2) and inv = "1.prems"(3)
  show ?case
  proof (cases "i < length comps")
    case False
    with le have "i = length comps" by simp
    with inv have "\<forall>c\<in>set comps. \<not> bad_comp c" by (auto simp: in_set_conv_nth)
    with False show ?thesis by (simp add: loop_unfold(1))
  next
    case lt: True
    have keep: "\<forall>j<i. \<not> bad_comp ((take i comps @ drop (Suc i) comps) ! j)"
      using inv lt by (simp add: nth_append)
    have len: "i \<le> length (take i comps @ drop (Suc i) comps)" using lt by simp
    show ?thesis
    proof (cases "comps ! i = [] \<or> comps ! i = ''.''")
      case True
      from "1.IH"(1) [OF lt True es len keep] show ?thesis
        unfolding loop_unfold(2) [OF lt True] .
    next
      case nb: False
      show ?thesis
      proof (cases "comps ! i = ''..''")
        case dd: True
        show ?thesis
        proof (cases "0 < i \<and> comps ! (i - 1) \<noteq> ''..''")
          case True
          have k2: "\<forall>j<i - 1. \<not> bad_comp ((take (i - 1) comps @ drop (Suc i) comps) ! j)"
            using inv lt by (simp add: nth_append)
          have l2: "i - 1 \<le> length (take (i - 1) comps @ drop (Suc i) comps)" using lt by simp
          from "1.IH"(2) [OF lt nb dd True es l2 k2] show ?thesis
            unfolding loop_unfold(3) [OF lt nb dd True] .
        next
          case np: False
          show ?thesis
          proof (cases "i = 0 \<and> endswith_sep prefix")
            case True
            from "1.IH"(3) [OF lt nb dd np True es len keep] show ?thesis
              unfolding loop_unfold(4) [OF lt nb dd np True] .
          next
            case False
            with es have "0 < i" by simp
            with np have "comps ! (i - 1) = ''..''" by simp
            moreover have "\<not> bad_comp (comps ! (i - 1))" using inv \<open>0 < i\<close> by simp
            ultimately show ?thesis by (simp add: bad_comp_def)
          qed
        qed
      next
        case False
        have "\<not> bad_comp (comps ! i)" using nb False by (simp add: bad_comp_def)
        with inv have k3: "\<forall>j<Suc i. \<not> bad_comp (comps ! j)" by (simp add: less_Suc_eq)
        have l3: "Suc i \<le> length comps" using lt by simp
        from "1.IH"(5) [OF lt nb False es l3 k3] show ?thesis
          unfolding loop_unfold(6) [OF lt nb False] .
      qed
    qed
  qed
qed

lemma splitdrive_none:
  assumes "2 \<le> length p \<Longrightarrow> \<not> (p ! 0 \<in> seps \<and> p ! 1 \<in> seps) \<and> p ! 1 \<noteq> colon"
  shows "splitdrive p = ([], p)"
proof (cases "2 \<le> length p")
  case False
  then show ?thesis by (simp add: splitdrive_def)
next
  case True
  let ?n = "replace_altsep p"
  from assms [OF True] have a: "\<not> (p ! 0 \<in> seps \<and> p ! 1 \<in> seps)" "p ! 1 \<noteq> colon" by simp_all
  have "take 2 ?n = [?n ! 0, ?n ! 1]" using True by (simp add: take2)
  moreover have "0 < length p" "1 < length p" using True by linarith+
  then have "?n ! 0 = sep \<longleftrightarrow> p ! 0 \<in> seps" "?n ! 1 = sep \<longleftrightarrow> p ! 1 \<in> seps"
    by (simp_all only: replace_altsep_nth)
  then have "\<not> (?n ! 0 = sep \<and> ?n ! 1 = sep)" using a(1) by simp
  ultimately have n1: "take 2 ?n \<noteq> [sep, sep]" by auto
  have "take 1 (drop 1 ?n) = [?n ! 1]" using True take1_drop1 [of ?n] by simp
  moreover have "?n ! 1 \<noteq> colon" using a(2) True by (simp add: replace_altsep_colon)
  ultimately have n2: "take 1 (drop 1 ?n) \<noteq> [colon]" by simp
  from True n1 n2 show ?thesis by (simp add: splitdrive_def Let_def)
qed

lemma replace_altsep_set:
  "altsep \<notin> set (replace_altsep p)" "colon \<notin> set p \<Longrightarrow> colon \<notin> set (replace_altsep p)"
  by (auto simp: replace_altsep_def)

lemma replace_altsep_hd: "p \<noteq> [] \<Longrightarrow> hd p \<in> seps \<Longrightarrow> hd (replace_altsep p) = sep"
  by (cases p) (auto simp: replace_altsep_def seps_def)

lemma normpath_rooted:
  assumes ne: "q \<noteq> []" and hd: "hd q \<in> seps" and nc: "colon \<notin> set q"
    and second: "2 \<le> length q \<Longrightarrow> q ! 1 \<notin> seps"
  shows "normalized_absolute (normpath q) \<and> colon \<notin> set (normpath q)"
proof -
  let ?p1 = "replace_altsep q"
  have p1ne: "?p1 \<noteq> []" using ne by (simp add: replace_altsep_def)
  have p1hd: "hd ?p1 = sep" using ne hd by (rule replace_altsep_hd)
  have p1c: "colon \<notin> set ?p1" using nc by (rule replace_altsep_set)
  have p1a: "altsep \<notin> set ?p1" by (rule replace_altsep_set)
  have sd: "splitdrive ?p1 = ([], ?p1)"
  proof (rule splitdrive_none)
    assume l: "2 \<le> length ?p1"
    then have lq: "2 \<le> length q" by simp
    from second [OF lq] have "?p1 ! 1 \<noteq> sep" using lq by (simp add: replace_altsep_nth)
    moreover have "?p1 ! 1 \<noteq> altsep" using p1a l by (metis nth_mem One_nat_def Suc_1 Suc_le_lessD)
    ultimately have "?p1 ! 1 \<notin> seps" by (simp add: seps_def)
    moreover have "?p1 ! 1 \<noteq> colon" using p1c l by (metis nth_mem One_nat_def Suc_1 Suc_le_lessD)
    ultimately show "\<not> (?p1 ! 0 \<in> seps \<and> ?p1 ! 1 \<in> seps) \<and> ?p1 ! 1 \<noteq> colon" by simp
  qed
  let ?p3 = "dropWhile (\<lambda>c. c = sep) ?p1"
  let ?comps = "normpath_loop [sep] (str_split ?p3) 0"
  have np: "normpath q = sep # str_join ?comps"
    using p1ne p1hd by (simp add: normpath_def Let_def sd)
  have clean: "\<forall>c\<in>set ?comps. \<not> bad_comp c"
    by (rule loop_clean) (simp_all add: endswith_sep_def)
  have sub: "set ?comps \<subseteq> set (str_split ?p3)" by (rule loop_subset)
  have p3: "set ?p3 \<subseteq> set ?p1" by (auto dest: set_dropWhileD)
  have comp: "sep \<notin> set c \<and> altsep \<notin> set c \<and> colon \<notin> set c" if "c \<in> set ?comps" for c
  proof -
    from that sub have c: "c \<in> set (str_split ?p3)" by blast
    from str_split_subset [OF c] p3 have "set c \<subseteq> set ?p1" by blast
    with p1a p1c str_split_no_sep [OF c] show ?thesis by blast
  qed
  have "normalized_absolute (sep # str_join ?comps)"
  proof (cases "?comps = []")
    case True
    then show ?thesis by (simp add: normalized_absolute_def)
  next
    case False
    then have "str_split (str_join ?comps) = ?comps" using comp by (intro str_split_join) blast+
    moreover have "list_all (\<lambda>c. c \<noteq> [] \<and> c \<noteq> ''.'' \<and> c \<noteq> ''..'' \<and> altsep \<notin> set c) ?comps"
      using clean comp by (auto simp: list_all_iff bad_comp_def)
    ultimately show ?thesis by (simp add: normalized_absolute_def)
  qed
  moreover have "colon \<notin> set (sep # str_join ?comps)"
    using set_str_join [of ?comps] comp by auto
  ultimately show ?thesis by (simp add: np)
qed

lemma normalized_second:
  assumes "normalized_absolute cur" "2 \<le> length cur"
  shows "cur ! 1 \<notin> seps"
proof -
  from assms obtain x xs where cur: "cur = sep # x # xs"
    by (cases cur; cases "tl cur") (auto simp: normalized_absolute_def)
  with assms(1) have la: "list_all (\<lambda>c. c \<noteq> [] \<and> c \<noteq> ''.'' \<and> c \<noteq> ''..'' \<and> altsep \<notin> set c)
      (str_split (x # xs))" by (simp add: normalized_absolute_def)
  have "x \<noteq> sep" using la by auto
  moreover have "x \<noteq> altsep" using la \<open>x \<noteq> sep\<close> by (auto split: list.splits)
  ultimately show ?thesis by (simp add: cur seps_def)
qed

lemma normalized_no_drive:
  assumes "normalized_absolute cur" "colon \<notin> set cur"
  shows "splitdrive cur = ([], cur)"
proof (rule splitdrive_none)
  assume l: "2 \<le> length cur"
  from normalized_second [OF assms(1) l] have "cur ! 1 \<notin> seps" .
  moreover have "cur ! 1 \<noteq> colon" using assms(2) l by (metis nth_mem One_nat_def Suc_1 Suc_le_lessD)
  ultimately show "\<not> (cur ! 0 \<in> seps \<and> cur ! 1 \<in> seps) \<and> cur ! 1 \<noteq> colon" by simp
qed

lemma drive_free_no_drive: "drive_free a \<Longrightarrow> splitdrive a = ([], a)"
  by (rule splitdrive_none) (metis drive_free_def nth_mem One_nat_def Suc_1 Suc_le_lessD)

lemma join_drive_free:
  assumes "splitdrive cur = ([], cur)" "splitdrive a = ([], a)"
  shows "join cur [a] = (if a \<noteq> [] \<and> hd a \<in> seps then a else join_relative cur a)"
  using assms by (simp add: join_def join_step_def Let_def)

lemma path_for_normalized:
  assumes cur: "normalized_absolute cur" "colon \<notin> set cur" and a: "drive_free a"
  shows "normalized_absolute (normpath (join cur [a])) \<and> colon \<notin> set (normpath (join cur [a]))"
proof (rule normpath_rooted)
  have j: "join cur [a] = (if a \<noteq> [] \<and> hd a \<in> seps then a else join_relative cur a)"
    using normalized_no_drive [OF cur] drive_free_no_drive [OF a] by (rule join_drive_free)
  have cne: "cur \<noteq> []" "hd cur = sep" using cur(1) by (simp_all add: normalized_absolute_def)
  have ac: "colon \<notin> set a" using a by (simp add: drive_free_def)
  show "join cur [a] \<noteq> []" using cne by (simp add: j join_relative_def)
  show "hd (join cur [a]) \<in> seps" using cne by (simp add: j join_relative_def seps_def)
  show "colon \<notin> set (join cur [a])" using cur(2) ac by (simp add: j join_relative_def)
  show "join cur [a] ! 1 \<notin> seps" if l: "2 \<le> length (join cur [a])"
  proof (cases "a \<noteq> [] \<and> hd a \<in> seps")
    case True
    from True have "a ! 0 \<in> seps" by (cases a) simp_all
    moreover from l True have "2 \<le> length a" by (simp add: j)
    ultimately have "a ! 1 \<notin> seps" using a by (auto simp: drive_free_def)
    with True show ?thesis by (simp add: j)
  next
    case rel: False
    show ?thesis
    proof (cases "2 \<le> length cur")
      case True
      from normalized_second [OF cur(1) True] have "cur ! 1 \<notin> seps" .
      moreover have "join cur [a] ! 1 = cur ! 1"
        using True rel by (auto simp: j join_relative_def nth_append)
      ultimately show ?thesis by simp
    next
      case False
      with cne have c1: "cur = [sep]" by (cases cur; cases "tl cur") auto
      have jj: "join cur [a] = sep # a" using j rel c1 by (auto simp: join_relative_def seps_def)
      with l have "a \<noteq> []" by auto
      with rel have "hd a \<notin> seps" by simp
      with \<open>a \<noteq> []\<close> show ?thesis by (simp add: jj hd_conv_nth)
    qed
  qed
qed

lemma str_join_split: "str_join (str_split s) = s"
proof (induction s)
  case Nil
  then show ?case by simp
next
  case (Cons c cs)
  obtain w ws where sp: "str_split cs = w # ws" by (cases "str_split cs") auto
  show ?case
  proof (cases "c = sep")
    case True
    with Cons sp show ?thesis by simp
  next
    case False
    with Cons sp show ?thesis by (cases ws) auto
  qed
qed

lemma loop_id:
  "\<forall>c\<in>set comps. \<not> bad_comp c \<Longrightarrow> normpath_loop prefix comps i = comps"
proof (induction prefix comps i rule: normpath_loop.induct)
  case (1 prefix comps i)
  show ?case
  proof (cases "i < length comps")
    case False
    then show ?thesis by (rule loop_unfold1)
  next
    case True
    with "1.prems" have nb: "\<not> bad_comp (comps ! i)" by simp
    then have a: "\<not> (comps ! i = [] \<or> comps ! i = ''.'')" and b: "comps ! i \<noteq> ''..''"
      by (simp_all add: bad_comp_def)
    from "1.IH"(5) [OF True a b "1.prems"] show ?thesis
      unfolding loop_unfold6 [OF True a b] .
  qed
qed

lemma normalized_fixed:
  assumes n: "normalized_absolute f" and c: "colon \<notin> set f"
  shows "normpath f = f"
proof (cases "f = [sep]")
  case True
  have "splitdrive [sep] = ([], [sep])" by (simp add: splitdrive_def)
  then show ?thesis
    by (simp add: True normpath_def replace_altsep_def Let_def loop_unfold2 loop_unfold1)
next
  case False
  from n False obtain rest where f: "f = sep # rest"
    and la: "list_all (\<lambda>c. c \<noteq> [] \<and> c \<noteq> ''.'' \<and> c \<noteq> ''..'' \<and> altsep \<notin> set c) (str_split rest)"
    by (cases f) (auto simp: normalized_absolute_def)
  have rest: "str_join (str_split rest) = rest" by (rule str_join_split)
  have "altsep \<notin> set rest"
  proof
    assume "altsep \<in> set rest"
    with rest set_str_join [of "str_split rest"] obtain c where "c \<in> set (str_split rest)" "altsep \<in> set c"
      by auto
    with la show False by (auto simp: list_all_iff)
  qed
  then have "map (\<lambda>c. if c = altsep then sep else c) rest = rest"
    by (intro map_idI) auto
  then have r1: "replace_altsep f = f" by (simp add: f replace_altsep_def)
  have sd: "splitdrive f = ([], f)" using n c by (rule normalized_no_drive)
  have "rest \<noteq> []" using False f by simp
  moreover have "hd rest \<noteq> sep" using la \<open>rest \<noteq> []\<close> by (cases rest) auto
  ultimately have dw: "dropWhile (\<lambda>c. c = sep) f = rest" by (cases rest) (simp_all add: f)
  have clean: "\<forall>c\<in>set (str_split rest). \<not> bad_comp c"
    using la by (auto simp: list_all_iff bad_comp_def)
  have "normpath f = sep # str_join (normpath_loop [sep] (str_split rest) 0)"
    by (simp add: normpath_def Let_def r1 sd dw) (simp add: f)
  also have "\<dots> = sep # str_join (str_split rest)" by (simp add: loop_id [OF clean])
  finally show ?thesis by (simp add: rest f)
qed

subsection \<open>Resolving an absolute fragment\<close>

text \<open>
  Claim C3, as the code has it. When the cursor has no drive part (\<^verbatim>\<open>splitdrive\<close> finds
  none: no drive letter, no UNC prefix), a fragment that starts with a backslash and that
  \<^verbatim>\<open>normpath\<close> leaves as it is resolves to itself. Every normalized absolute path
  without colon is such a fragment, and such a cursor.
\<close>

theorem path_for_absolute:
  "(cur_dir s = Some cur \<and> fst (splitdrive cur) = [] \<and> f \<noteq> [] \<and> hd f = sep \<and> normpath f = f \<longrightarrow>
      path_for f s = (Inr f, s))
   \<and> (normalized_absolute g \<and> colon \<notin> set g \<longrightarrow>
        fst (splitdrive g) = [] \<and> g \<noteq> [] \<and> hd g = sep \<and> normpath g = g)"
proof (intro conjI impI)
  assume a: "cur_dir s = Some cur \<and> fst (splitdrive cur) = [] \<and> f \<noteq> [] \<and> hd f = sep \<and> normpath f = f"
  then have "hd f \<in> seps" by (simp add: seps_def)
  with a have "join cur [f] = f" by (intro join_absolute) simp_all
  with a show "path_for f s = (Inr f, s)"
    by (simp add: path_for_def and_then_def get_attr_def return_def)
next
  assume g: "normalized_absolute g \<and> colon \<notin> set g"
  then show "fst (splitdrive g) = []" by (simp add: normalized_no_drive)
  from g show "g \<noteq> []" "hd g = sep" by (simp_all add: normalized_absolute_def)
  from g show "normpath g = g" by (intro normalized_fixed) simp_all
qed

theorem path_for_absolute_witness:
  "normalized_absolute (sep # ''DCIM'') \<and> colon \<notin> set (sep # ''DCIM'')
   \<and> normalized_absolute (sep # ''Nintendo 3DS'') \<and> colon \<notin> set (sep # ''Nintendo 3DS'')
   \<and> cur_dir example_cd_state = Some (sep # ''DCIM'')
   \<and> fst (splitdrive (sep # ''DCIM'')) = []
   \<and> normpath (sep # ''Nintendo 3DS'') = sep # ''Nintendo 3DS''
   \<and> path_for (sep # ''Nintendo 3DS'') example_cd_state
       = (Inr (sep # ''Nintendo 3DS''), example_cd_state)"
proof -
  have h: "normalized_absolute (sep # ''DCIM'') \<and> colon \<notin> set (sep # ''DCIM'')"
    "normalized_absolute (sep # ''Nintendo 3DS'') \<and> colon \<notin> set (sep # ''Nintendo 3DS'')"
    by (simp_all add: normalized_absolute_def)
  have c: "cur_dir example_cd_state = Some (sep # ''DCIM'')"
    by (simp add: example_cd_state_def)
  from path_for_absolute [of example_cd_state "sep # ''DCIM''" "sep # ''Nintendo 3DS''" "sep # ''DCIM''"]
    path_for_absolute [of example_cd_state "sep # ''DCIM''" "sep # ''Nintendo 3DS''"
      "sep # ''Nintendo 3DS''"] h c
  show ?thesis by blast
qed

text \<open>
  For every cursor the claim fails: against the cursor \<^verbatim>\<open>C:\<close> the fragment \<^verbatim>\<open>\a\<close>
  resolves to \<^verbatim>\<open>C:\a\<close>, and against the normalized absolute cursor \<^verbatim>\<open>\:x\<close>, whose
  first two characters \<^verbatim>\<open>splitdrive\<close> takes for a drive, to \<^verbatim>\<open>\:\a\<close>.
\<close>

theorem path_for_absolute_counterexample:
  "hd (sep # ''a'') = sep \<and> normpath (sep # ''a'') = sep # ''a''
   \<and> path_for (sep # ''a'') (example_state\<lparr>cur_dir := Some ''C:''\<rparr>)
       = (Inr (''C:'' @ sep # ''a''), example_state\<lparr>cur_dir := Some ''C:''\<rparr>)
   \<and> ''C:'' @ sep # ''a'' \<noteq> sep # ''a''
   \<and> normalized_absolute ([sep, colon] @ ''x'')
   \<and> path_for (sep # ''a'') (example_state\<lparr>cur_dir := Some ([sep, colon] @ ''x'')\<rparr>)
       = (Inr ([sep, colon, sep] @ ''a''), example_state\<lparr>cur_dir := Some ([sep, colon] @ ''x'')\<rparr>)
   \<and> [sep, colon, sep] @ ''a'' \<noteq> sep # ''a''"
  by (simp add: np_defs path_for_def and_then_def get_attr_def return_def normalized_absolute_def)

section \<open>Properties of the cursor\<close>

lemma keeps_download [intro, simp]: "keeps_session (download env src dest)"
  by (rule keeps_sessionI)
     (auto simp: download_def and_then_def get_attr_def return_def emit_def Let_def
           split: option.splits sum.splits prod.splits)

lemma keeps_upload [intro, simp]: "keeps_session (upload env src dest)"
proof (rule keeps_sessionI)
  fix s r s'
  assume run: "upload env src dest s = (r, s')"
  show "conn s' = conn s \<and> service s' = service s \<and> cur_dir s' = cur_dir s \<and>
     live s' = live s \<and> next_conn s' = next_conn s \<and>
     (\<exists>rest. trace s' = trace s @ rest \<and> (\<forall>ev\<in>set rest. \<not> session_event ev))"
  proof (cases "open_result env (trace s) src")
    case (Some e)
    with run show ?thesis by (auto simp: upload_def emit_def)
  next
    case None
    obtain r1 s1 where c: "smb_call env (\<lambda>sv. StoreFile sv dest) (emit (OpenRead src) s) = (r1, s1)"
      by (cases "smb_call env (\<lambda>sv. StoreFile sv dest) (emit (OpenRead src) s)") auto
    from keeps_sessionD [OF keeps_smb_call c] obtain rest where
      k: "conn s1 = conn s" "service s1 = service s" "cur_dir s1 = cur_dir s" "live s1 = live s"
        "next_conn s1 = next_conn s" "trace s1 = trace s @ OpenRead src # rest"
        "\<forall>ev\<in>set rest. \<not> session_event ev"
      by (auto simp: emit_def)
    from run None c have s': "s' = emit (CloseFile src) s1" by (simp add: upload_def)
    have "trace s' = trace s @ (OpenRead src # rest @ [CloseFile src])"
      by (simp add: s' emit_def k)
    moreover have "\<forall>ev\<in>set (OpenRead src # rest @ [CloseFile src]). \<not> session_event ev"
      using k(7) by simp
    ultimately have "\<exists>rest. trace s' = trace s @ rest \<and> (\<forall>ev\<in>set rest. \<not> session_event ev)"
      by blast
    then show ?thesis using k by (simp add: s' emit_def)
  qed
qed

lemma keeps_local_listing [intro, simp]: "keeps_session (local_listing env path)"
proof (rule keeps_sessionI)
  fix s r s'
  assume run: "local_listing env path s = (r, s')"
  show "conn s' = conn s \<and> service s' = service s \<and> cur_dir s' = cur_dir s \<and>
     live s' = live s \<and> next_conn s' = next_conn s \<and>
     (\<exists>rest. trace s' = trace s @ rest \<and> (\<forall>ev\<in>set rest. \<not> session_event ev))"
  proof (cases "listdir env (trace s) path")
    case (Inl e)
    with run show ?thesis by (auto simp: local_listing_def emit_def)
  next
    case (Inr entries)
    let ?resp = "map (\<lambda>(n, d, z). \<lparr>filename = n, isDirectory = d, file_size = z\<rparr>) entries"
    have k: "keeps_session (\<lambda>s. print_listing ?resp (emit (ListDir path) s))"
      by (intro keeps_emit_then) simp_all
    from run Inr have "print_listing ?resp (emit (ListDir path) s) = (r, s')"
      by (simp add: local_listing_def)
    from keeps_sessionD [OF k this] show ?thesis by blast
  qed
qed

lemma keeps_local_chdir [intro, simp]: "keeps_session (local_chdir env path)"
  by (rule keeps_sessionI) (auto simp: local_chdir_def emit_def)

lemma keeps_do_ls [intro, simp]: "keeps_session (do_ls env args)"
  unfolding do_ls_def by (intro keeps_if keeps_and_then) simp_all

lemma keeps_do_lls [intro, simp]: "keeps_session (do_lls env args)"
proof -
  have "do_lls env args = (\<lambda>s.
     (if args = [] then local_listing env (getcwd env (trace s))
      else if length args = 1 then local_listing env (lpath_for env (trace s) (args ! 0))
      else py_print ''Too many arguments'') s)"
    by (rule ext) (simp add: do_lls_def)
  moreover have "keeps_session (\<lambda>s.
     (if args = [] then local_listing env (getcwd env (trace s))
      else if length args = 1 then local_listing env (lpath_for env (trace s) (args ! 0))
      else py_print ''Too many arguments'') s)"
    by (rule keeps_sessionI) (auto dest: keeps_sessionD [OF keeps_local_listing] keeps_sessionD [OF keeps_print] split: if_splits)
  ultimately show ?thesis by simp
qed

lemma keeps_do_mkdir [intro, simp]: "keeps_session (do_mkdir env args)"
  unfolding do_mkdir_def by (intro keeps_if keeps_for_each keeps_and_then) simp_all

lemma keeps_do_lcd [intro, simp]: "keeps_session (do_lcd env args)"
  by (rule keeps_sessionI)
     (auto simp: do_lcd_def dest: keeps_sessionD [OF keeps_local_chdir] keeps_sessionD [OF keeps_print]
           split: if_splits)

lemma keeps_download_dep: "keeps_session (\<lambda>s. download env src (g s) s)"
  using keeps_download by (rule keeps_dep)

lemma keeps_do_get [intro, simp]: "keeps_session (do_get env args)"
  unfolding do_get_def
  by (intro keeps_if keeps_and_then keeps_download_dep) simp_all

lemma keeps_do_mget [intro, simp]: "keeps_session (do_mget env args)"
  unfolding do_mget_def
  by (intro keeps_if keeps_for_each keeps_and_then keeps_download_dep) simp_all

lemma keeps_do_put [intro, simp]: "keeps_session (do_put env args)"
proof (rule keeps_sessionI)
  fix s r s'
  assume run: "do_put env args s = (r, s')"
  have k: "keeps_session (and_then (path_for x) (upload env y))" for x y
    by (intro keeps_and_then) simp_all
  from run show "conn s' = conn s \<and> service s' = service s \<and> cur_dir s' = cur_dir s \<and>
     live s' = live s \<and> next_conn s' = next_conn s \<and>
     (\<exists>rest. trace s' = trace s @ rest \<and> (\<forall>ev\<in>set rest. \<not> session_event ev))"
    by (auto simp: do_put_def dest: keeps_sessionD [OF k] keeps_sessionD [OF keeps_print]
          split: if_splits)
qed

lemma keeps_do_mput [intro, simp]: "keeps_session (do_mput env args)"
proof -
  have k: "keeps_session (\<lambda>s. and_then (path_for x) (upload env (g s)) s)" for x g
    by (rule keeps_dep [where m = "\<lambda>y. and_then (path_for x) (upload env y)"])
       (intro keeps_and_then, simp_all)
  show ?thesis
    unfolding do_mput_def by (intro keeps_if keeps_for_each keeps_and_then k) simp_all
qed

lemma keeps_do_rm [intro, simp]: "keeps_session (do_rm env args)"
  unfolding do_rm_def by (intro keeps_if keeps_for_each keeps_and_then) simp_all

lemma keeps_do_rmdir [intro, simp]: "keeps_session (do_rmdir env arg)"
  by (simp add: do_rmdir_def)

lemma keeps_do_mv [intro, simp]: "keeps_session (do_mv env args)"
  unfolding do_mv_def by (intro keeps_if keeps_for_each keeps_and_then) simp_all

lemma keeps_do_pwd [intro, simp]: "keeps_session (do_pwd env)"
proof -
  have "keeps_session (\<lambda>s. py_print (''Local: '' @ getcwd env (trace s)) s)"
    by (rule keeps_dep [where m = "\<lambda>x. py_print (''Local: '' @ x)"]) simp
  then show ?thesis unfolding do_pwd_def by (intro keeps_and_then) simp_all
qed

lemma keeps_do_info [intro, simp]: "keeps_session do_info"
  unfolding do_info_def
  by (intro keeps_and_then keeps_get_attr keeps_sessionI) (auto simp: emit_def)

lemma keeps_do_help [intro, simp]: "keeps_session (do_help arg_str)"
  by (rule keeps_sessionI) (auto simp: do_help_def emit_def)

lemma keeps_unit_cmd [intro]: "keeps_session m \<Longrightarrow> keeps_session (unit_cmd m)"
  unfolding unit_cmd_def by (intro keeps_and_then) simp_all

lemma keeps_onecmd: "(\<And>args. c \<noteq> Cd args) \<Longrightarrow> keeps_session (onecmd env c)"
  by (cases c) (auto intro!: keeps_unit_cmd)

lemma change_dir_effect:
  assumes "change_dir env path s = (r, s')"
  shows "conn s' = conn s \<and> service s' = service s \<and> live s' = live s \<and>
     (cur_dir s' = cur_dir s \<or>
      (\<exists>cn sv resp. r = Inr () \<and> conn s = Some cn \<and> service s = Some sv \<and>
          listPath env (trace s) cn sv path = Inr resp \<and> cur_dir s' = Some path))"
  using assms
  by (auto simp: change_dir_def smb_listPath_def and_then_def get_attr_def status_name_def
        raise_def emit_def split: option.splits sum.splits error.splits)

lemma do_cd_effect:
  assumes "do_cd env args s = (r, s')"
  shows "conn s' = conn s \<and> service s' = service s \<and> live s' = live s \<and>
     (cur_dir s' = cur_dir s \<or>
      (\<exists>path cn sv resp. r = Inr () \<and> conn s = Some cn \<and> service s = Some sv \<and>
          listPath env (trace s) cn sv path = Inr resp \<and> cur_dir s' = Some path \<and>
          (args = [] \<and> path = [sep] \<or>
           (\<exists>a cur. args = [a] \<and> cur_dir s = Some cur \<and> path = normpath (join cur [a])))))"
proof (cases "args = []")
  case True
  with assms have "change_dir env [sep] s = (r, s')" by (simp add: do_cd_def)
  from change_dir_effect [OF this] True show ?thesis by blast
next
  case ne: False
  show ?thesis
  proof (cases "length args = 1")
    case False
    with ne assms show ?thesis by (auto simp: do_cd_def py_print_def emit_def)
  next
    case True
    then obtain a where a: "args = [a]" by (cases args) auto
    show ?thesis
    proof (cases "cur_dir s")
      case None
      with assms a show ?thesis
        by (auto simp: do_cd_def path_for_def and_then_def get_attr_def)
    next
      case (Some cur)
      with assms a have "change_dir env (normpath (join cur [a])) s = (r, s')"
        by (simp add: do_cd_def path_for_def and_then_def get_attr_def return_def)
      from change_dir_effect [OF this] a Some show ?thesis by blast
    qed
  qed
qed

lemma onecmd_effect:
  assumes "onecmd env c s = (r, s')"
  shows "conn s' = conn s \<and> service s' = service s \<and> live s' = live s \<and>
     (cur_dir s' = cur_dir s \<or>
      (\<exists>args path cn sv resp. c = Cd args \<and> r = Inr False \<and> conn s = Some cn \<and>
          service s = Some sv \<and> listPath env (trace s) cn sv path = Inr resp \<and>
          cur_dir s' = Some path \<and>
          (args = [] \<and> path = [sep] \<or>
           (\<exists>a cur. args = [a] \<and> cur_dir s = Some cur \<and> path = normpath (join cur [a])))))"
proof (cases "\<exists>args. c = Cd args")
  case False
  then have "keeps_session (onecmd env c)" by (intro keeps_onecmd) blast
  from keeps_sessionD [OF this assms] show ?thesis by simp
next
  case True
  then obtain args where c: "c = Cd args" by blast
  obtain r1 s1 where d: "do_cd env args s = (r1, s1)" by (cases "do_cd env args s") auto
  with assms c have rs: "s' = s1" "(r1 = Inr () \<longrightarrow> r = Inr False)"
    by (auto simp: unit_cmd_def and_then_def return_def split: sum.splits)
  from do_cd_effect [OF d] rs c show ?thesis by blast
qed

lemma reachable_attrs:
  assumes "reachable P env s"
  shows "\<exists>cn sv p. conn s = Some cn \<and> service s = Some sv \<and> cur_dir s = Some p"
  using assms
proof (induction rule: reachable.induct)
  case (init config fs s)
  then show ?case using connect_attrs [of env config "init_state fs" s]
    by (auto simp: client_init_def)
next
  case (command s c stop s')
  from onecmd_effect [OF command.hyps(3)] command.IH show ?case by auto
next
  case (reconnect s config s')
  then show ?case using connect_attrs [of env config s s'] by auto
qed

lemma normalized_root: "normalized_absolute [sep] \<and> colon \<notin> set [sep]"
  by (simp add: normalized_absolute_def)

lemma reachable_normalized:
  assumes "reachable drive_free_command env s"
  shows "\<exists>p. cur_dir s = Some p \<and> normalized_absolute p \<and> colon \<notin> set p"
  using assms
proof (induction rule: reachable.induct)
  case (init config fs s)
  then show ?case using connect_attrs [of env config "init_state fs" s] normalized_root
    by (auto simp: client_init_def)
next
  case (command s c stop s')
  from command.IH obtain p where p: "cur_dir s = Some p" "normalized_absolute p" "colon \<notin> set p"
    by blast
  from onecmd_effect [OF command.hyps(3)]
  have "cur_dir s' = cur_dir s \<or>
      (\<exists>args path. c = Cd args \<and> cur_dir s' = Some path \<and>
          (args = [] \<and> path = [sep] \<or>
           (\<exists>a cur. args = [a] \<and> cur_dir s = Some cur \<and> path = normpath (join cur [a]))))"
    by blast
  then show ?case
  proof (elim disjE exE conjE)
    assume "cur_dir s' = cur_dir s"
    with p show ?thesis by simp
  next
    fix args path
    assume "cur_dir s' = Some path" "args = []" "path = [sep]"
    then show ?thesis using normalized_root by simp
  next
    fix args path a cur
    assume c: "c = Cd args" "args = [a]" and s': "cur_dir s' = Some path"
      and cur: "cur_dir s = Some cur" and path: "path = normpath (join cur [a])"
    from c command.hyps(2) have "drive_free a" by simp
    with p cur have "normalized_absolute path \<and> colon \<notin> set path"
      unfolding path by (intro path_for_normalized) simp_all
    with s' show ?thesis by simp
  qed
next
  case (reconnect s config s')
  then show ?case using connect_attrs [of env config s s'] normalized_root by auto
qed

lemma example_cd:
  "onecmd example_env (Cd [''DCIM'']) example_state = (Inr False, example_cd_state)"
proof -
  have n: "normpath (join [sep] [''DCIM'']) = sep # ''DCIM''" by (simp add: np_defs)
  show ?thesis
    by (simp add: unit_cmd_def do_cd_def run_defs n example_env_def example_state_def
          example_cd_state_def)
qed

lemma example_cd_drive:
  "onecmd example_env (Cd [''C:foo'']) example_state = (Inr False, example_drive_state)"
proof -
  have n: "normpath (join [sep] [''C:foo'']) = ''C:foo''" by (simp add: np_defs)
  show ?thesis
    by (simp add: unit_cmd_def do_cd_def run_defs n example_env_def example_state_def
          example_drive_state_def)
qed

text \<open>
  Claim C7, as the code has it. A \<^verbatim>\<open>_connect\<close> that returns leaves the cursor at the share
  root \<^verbatim>\<open>\\<close>. A command changes the cursor only if it is \<^verbatim>\<open>cd\<close>, its validating
  \<^verbatim>\<open>listPath\<close> call succeeded and the command returned; the new cursor is then the path
  listed, the root for no argument and \<^verbatim>\<open>normpath(join(cursor, argument))\<close> for one. In
  every state the shell can reach the cursor holds one path. And as long as the arguments
  of \<^verbatim>\<open>cd\<close> name no drive (no colon, no two leading separators), that path is a
  normalized absolute path.
\<close>

theorem cursor_invariant:
  "(connect env config s0 = (Inr (), s1) \<longrightarrow> cur_dir s1 = Some [sep])
   \<and> (onecmd env c s = (r, s') \<and> cur_dir s' \<noteq> cur_dir s \<longrightarrow>
        (\<exists>args path cn sv resp. c = Cd args \<and> r = Inr False \<and> conn s = Some cn \<and>
           service s = Some sv \<and> listPath env (trace s) cn sv path = Inr resp \<and>
           cur_dir s' = Some path \<and>
           (args = [] \<and> path = [sep] \<or>
            (\<exists>a cur. args = [a] \<and> cur_dir s = Some cur \<and> path = normpath (join cur [a])))))
   \<and> (reachable P env s2 \<longrightarrow> (\<exists>p. cur_dir s2 = Some p))
   \<and> (reachable drive_free_command env s3 \<longrightarrow>
        (\<exists>p. cur_dir s3 = Some p \<and> normalized_absolute p))"
proof (intro conjI impI)
  assume "connect env config s0 = (Inr (), s1)"
  from connect_attrs [OF this] show "cur_dir s1 = Some [sep]" by blast
next
  assume "onecmd env c s = (r, s') \<and> cur_dir s' \<noteq> cur_dir s"
  then have run: "onecmd env c s = (r, s')" and ne: "cur_dir s' \<noteq> cur_dir s" by simp_all
  from onecmd_effect [OF run] ne
  show "\<exists>args path cn sv resp. c = Cd args \<and> r = Inr False \<and> conn s = Some cn \<and>
           service s = Some sv \<and> listPath env (trace s) cn sv path = Inr resp \<and>
           cur_dir s' = Some path \<and>
           (args = [] \<and> path = [sep] \<or>
            (\<exists>a cur. args = [a] \<and> cur_dir s = Some cur \<and> path = normpath (join cur [a])))"
    by blast
next
  assume "reachable P env s2"
  from reachable_attrs [OF this] show "\<exists>p. cur_dir s2 = Some p" by blast
next
  assume "reachable drive_free_command env s3"
  from reachable_normalized [OF this] show "\<exists>p. cur_dir s3 = Some p \<and> normalized_absolute p"
    by blast
qed

lemma example_cd_reachable: "reachable drive_free_command example_env example_cd_state"
proof -
  have "reachable drive_free_command example_env example_state"
    using example_init by (rule reachable.init)
  moreover have "drive_free_command (Cd [''DCIM''])" by (simp add: drive_free_def seps_def)
  ultimately show ?thesis using example_cd by (rule reachable.command)
qed

theorem cursor_invariant_witness:
  "connect example_env example_config example_state = (Inr (), example_reconnected)
   \<and> cur_dir example_reconnected = Some [sep]
   \<and> onecmd example_env (Cd [''DCIM'']) example_state = (Inr False, example_cd_state)
   \<and> cur_dir example_cd_state \<noteq> cur_dir example_state
   \<and> (\<exists>args path cn sv resp. Cd [''DCIM''] = Cd args \<and> conn example_state = Some cn \<and>
         service example_state = Some sv \<and>
         listPath example_env (trace example_state) cn sv path = Inr resp \<and>
         cur_dir example_cd_state = Some path \<and>
         (args = [] \<and> path = [sep] \<or>
          (\<exists>a cur. args = [a] \<and> cur_dir example_state = Some cur \<and>
             path = normpath (join cur [a]))))
   \<and> reachable drive_free_command example_env example_cd_state
   \<and> (\<exists>p. cur_dir example_cd_state = Some p \<and> normalized_absolute p)"
proof -
  have ne: "cur_dir example_cd_state \<noteq> cur_dir example_state"
    by (simp add: example_cd_state_def example_state_def)
  from cursor_invariant [of example_env example_config example_state example_reconnected
      "Cd [''DCIM'']" example_state "Inr False" example_cd_state drive_free_command
      example_cd_state example_cd_state]
    example_reconnect example_cd ne example_cd_reachable
  show ?thesis by blast
qed

text \<open>
  Without that condition on the arguments the claim fails: \<^verbatim>\<open>cd C:foo\<close>, when the server
  lists the path, leaves the cursor \<^verbatim>\<open>C:foo\<close>, which is not absolute.
\<close>

theorem cursor_invariant_counterexample:
  "reachable (\<lambda>c. True) example_env example_drive_state
   \<and> cur_dir example_drive_state = Some ''C:foo''
   \<and> \<not> normalized_absolute ''C:foo''"
proof -
  have "reachable (\<lambda>c. True) example_env example_state"
    using example_init by (rule reachable.init)
  then have "reachable (\<lambda>c. True) example_env example_drive_state"
    using _ example_cd_drive by (rule reachable.command) simp
  then show ?thesis
    by (simp add: example_drive_state_def normalized_absolute_def)
qed

section \<open>Properties of the session\<close>

lemma reachable_live:
  assumes "reachable P env s"
  shows "live s \<subseteq> set_option (conn s)"
  using assms
proof (induction rule: reachable.induct)
  case (init config fs s)
  then have "connect env config (init_state fs) = (Inr (), s)" by (simp add: client_init_def)
  then show ?case by (rule connect_live) (simp add: init_state_def)
next
  case (command s c stop s')
  from onecmd_effect [OF command.hyps(3)] command.IH show ?case by simp
next
  case (reconnect s config s')
  from reconnect.hyps(2) reconnect.IH show ?case by (rule connect_live)
qed

text \<open>
  Claim C6. Whatever \<^verbatim>\<open>_connect\<close> goes on to do, what it adds to the trace starts with
  the \<^verbatim>\<open>close\<close> of the connection object it found in \<^verbatim>\<open>self.conn\<close>, if there was one, and
  holds no other \<^verbatim>\<open>close\<close>: the existing session is closed once, before the name lookup,
  the creation of the new connection object and its \<^verbatim>\<open>connect\<close>; with no session there is
  no \<^verbatim>\<open>close\<close> at all. And when the only open socket, if any, was that of
  \<^verbatim>\<open>self.conn\<close>, the same holds afterwards: at most one session is live and none is
  left behind. So it is in every state the shell can reach.
\<close>

theorem connect_closes_once:
  assumes "connect env config s = (r, s')"
  shows "(\<exists>rest. trace s' = trace s @ (case conn s of None \<Rightarrow> [] | Some c \<Rightarrow> [Close c]) @ rest \<and>
            (\<forall>c. Close c \<notin> set rest))
         \<and> (live s \<subseteq> set_option (conn s) \<longrightarrow> live s' \<subseteq> set_option (conn s') \<and> card (live s') \<le> 1)
         \<and> (reachable P env s \<longrightarrow> live s \<subseteq> set_option (conn s) \<and> card (live s) \<le> 1)"
proof (intro conjI impI)
  show "\<exists>rest. trace s' = trace s @ (case conn s of None \<Rightarrow> [] | Some c \<Rightarrow> [Close c]) @ rest \<and>
            (\<forall>c. Close c \<notin> set rest)"
    using assms by (rule connect_trace)
next
  assume "live s \<subseteq> set_option (conn s)"
  with assms show l: "live s' \<subseteq> set_option (conn s')" by (rule connect_live)
  then show "card (live s') \<le> 1"
    by (cases "conn s'") (auto simp: subset_singleton_iff)
next
  assume "reachable P env s"
  then show l: "live s \<subseteq> set_option (conn s)" by (rule reachable_live)
  then show "card (live s) \<le> 1"
    by (cases "conn s") (auto simp: subset_singleton_iff)
qed

theorem connect_closes_once_witness:
  "connect example_env example_config example_state = (Inr (), example_reconnected)
   \<and> conn example_state = Some 0 \<and> live example_state \<subseteq> set_option (conn example_state)
   \<and> (\<exists>rest. trace example_reconnected = trace example_state @ [Close 0] @ rest \<and>
         (\<forall>c. Close c \<notin> set rest))
   \<and> live example_reconnected \<subseteq> set_option (conn example_reconnected)
   \<and> card (live example_reconnected) \<le> 1
   \<and> reachable drive_free_command example_env example_state
   \<and> card (live example_state) \<le> 1"
proof -
  have c: "conn example_state = Some 0" "live example_state \<subseteq> set_option (conn example_state)"
    by (simp_all add: example_state_def)
  have r: "reachable drive_free_command example_env example_state"
    using example_init by (rule reachable.init)
  from connect_closes_once [OF example_reconnect, of drive_free_command] c example_reconnect r
  show ?thesis by simp
qed

end
